theory Spec2Isabelle
  imports Complex_Main "HOL-Library.Sublist" "HOL-Library.Multiset"
begin

section \<open>Two-stage retrieval: the data model of \<open>scripts/two_stage_search.py\<close>\<close>

text \<open>
  The embedding covers class \<open>TwoStageSearch\<close>: \<open>_load\<close>, \<open>_get_text_by_index\<close> and
  \<open>search\<close>. The embedding provider and the FAISS nearest-neighbour search are external:
  their answer for one query, \<open>zip(scores[0], indices[0])\<close>, is the argument \<open>hits\<close> of
  \<open>search\<close>; \<open>top_k_chunks\<close> only goes to that external call. Python strings are
  \<open>string\<close> (one character of the model for one code point, so \<open>len\<close> is \<open>length\<close>),
  Python integers are \<open>int\<close>, and the float similarity scores are idealised as \<open>real\<close>
  numbers, so that \<open>n ** 0.5\<close> is \<open>sqrt n\<close>. Exceptions are values of type \<open>error\<close>.
\<close>

datatype error = IndexError | FileError

text \<open>One entry of \<open>metadata.pkl\<close>: \<open>{"doc_id": ..., "chunk_index": ...}\<close>.\<close>

record meta =
  meta_doc_id :: string
  meta_chunk_index :: int

text \<open>One entry of \<open>doc_chunks[doc_id]\<close>.\<close>

record chunk =
  chunk_index :: int
  faiss_index :: int
  score :: real

text \<open>One entry of \<open>doc_scores\<close>.\<close>

record doc =
  doc_id :: string
  doc_score :: real
  matching_chunks :: "chunk list"

text \<open>One entry of the returned \<open>document_scores\<close>.\<close>

record doc_summary =
  sum_doc_id :: string
  sum_score :: real
  num_matching_chunks :: nat

text \<open>The dictionary returned by \<open>search\<close>; its key \<open>"context"\<close> is the field
  \<open>context_str\<close>.\<close>

record result =
  context_str :: string
  top_documents :: "string list"
  document_scores :: "doc_summary list"
  context_chars :: nat

text \<open>The loaded instance: \<open>self.index\<close> (only \<open>ntotal\<close> is read), \<open>self.metadata\<close>,
  \<open>self.texts\<close>.\<close>

record two_stage_search =
  ntotal :: nat
  metadata :: "meta list"
  texts :: "string list"

section \<open>Loading\<close>

text \<open>
  \<open>_load\<close> reads three files in turn; a file that cannot be read raises, which is the
  argument \<open>None\<close> here. Nothing else in \<open>_load\<close> can fail: the sizes are only printed.
\<close>

definition load ::
  "nat option \<Rightarrow> meta list option \<Rightarrow> string list option \<Rightarrow> error + two_stage_search" where
  "load index_file metadata_file texts_file =
     (case index_file of
        None \<Rightarrow> Inl FileError
      | Some n \<Rightarrow>
          (case metadata_file of
             None \<Rightarrow> Inl FileError
           | Some md \<Rightarrow>
               (case texts_file of
                  None \<Rightarrow> Inl FileError
                | Some tx \<Rightarrow> Inr \<lparr>ntotal = n, metadata = md, texts = tx\<rparr>)))"

definition get_text_by_index :: "string list \<Rightarrow> int \<Rightarrow> string" where
  "get_text_by_index txs idx =
     (if 0 \<le> idx \<and> idx < int (length txs) then txs ! nat idx else [])"

section \<open>Stage 1: grouping chunk hits by document and scoring documents\<close>

text \<open>
  \<open>doc_chunks\<close> is a Python dict, which keeps insertion order: an association list whose
  keys are in order of first insertion. \<open>dict_append d k v\<close> is
  \<open>if k not in d: d[k] = []\<close> followed by \<open>d[k].append(v)\<close>.
\<close>

fun dict_append :: "(string \<times> chunk list) list \<Rightarrow> string \<Rightarrow> chunk \<Rightarrow> (string \<times> chunk list) list" where
  "dict_append [] k v = [(k, [v])]"
| "dict_append ((k', vs) # rest) k v =
     (if k' = k then (k', vs @ [v]) # rest else (k', vs) # dict_append rest k v)"

text \<open>
  The loop over the hits. A negative index is skipped; \<open>self.metadata[idx]\<close> raises
  \<open>IndexError\<close> for an index past the end of the table, which aborts the whole call.
\<close>

fun group_chunks ::
  "meta list \<Rightarrow> (real \<times> int) list \<Rightarrow> (string \<times> chunk list) list \<Rightarrow> error + (string \<times> chunk list) list" where
  "group_chunks md [] doc_chunks = Inr doc_chunks"
| "group_chunks md ((s, idx) # hits) doc_chunks =
     (if idx < 0 then group_chunks md hits doc_chunks
      else if int (length md) \<le> idx then Inl IndexError
      else group_chunks md hits
             (dict_append doc_chunks (meta_doc_id (md ! nat idx))
                \<lparr>chunk_index = meta_chunk_index (md ! nat idx), faiss_index = idx, score = s\<rparr>))"

text \<open>The body of the scoring loop: \<open>sum(scores) / n ** 0.5\<close>, and \<open>sorted\<close> (a stable
  sort) of the chunks by \<open>-score\<close>.\<close>

definition score_document :: "string \<times> chunk list \<Rightarrow> doc" where
  "score_document kv =
     \<lparr>doc_id = fst kv,
      doc_score = sum_list (map score (snd kv)) / sqrt (real (length (snd kv))),
      matching_chunks = sort_key (\<lambda>x. - score x) (snd kv)\<rparr>"

text \<open>\<open>doc_scores\<close> before it is sorted, in the insertion order of \<open>doc_chunks\<close>.\<close>

definition aggregate :: "meta list \<Rightarrow> (real \<times> int) list \<Rightarrow> error + doc list" where
  "aggregate md hits =
     (case group_chunks md hits [] of
        Inl e \<Rightarrow> Inl e
      | Inr doc_chunks \<Rightarrow> Inr (map score_document doc_chunks))"

text \<open>\<open>doc_scores.sort(key=lambda x: -x["score"])\<close>: Python's sort is stable.\<close>

definition rank :: "doc list \<Rightarrow> doc list" where
  "rank doc_scores = sort_key (\<lambda>x. - doc_score x) doc_scores"

text \<open>The slice \<open>xs[:n]\<close>; a negative \<open>n\<close> counts from the end.\<close>

definition py_take :: "int \<Rightarrow> 'a list \<Rightarrow> 'a list" where
  "py_take n xs = (if 0 \<le> n then take (nat n) xs else take (length xs - nat (- n)) xs)"

definition select_documents :: "meta list \<Rightarrow> (real \<times> int) list \<Rightarrow> int \<Rightarrow> error + doc list" where
  "select_documents md hits top_docs =
     (case aggregate md hits of
        Inl e \<Rightarrow> Inl e
      | Inr doc_scores \<Rightarrow> Inr (py_take top_docs (rank doc_scores)))"

section \<open>Stage 2: building the context\<close>

definition NL :: string where
  "NL = [CHR 0x0A]"

definition header :: "string \<Rightarrow> string" where
  "header d = NL @ ''--- Document: '' @ d @ '' ---'' @ NL"

text \<open>A \<open>for\<close> loop whose body may \<open>break\<close>.\<close>

datatype 's ctl = Next 's | Break 's

fun ctl_state :: "'s ctl \<Rightarrow> 's" where
  "ctl_state (Next s) = s"
| "ctl_state (Break s) = s"

fun for_loop :: "('x \<Rightarrow> 's \<Rightarrow> 's ctl) \<Rightarrow> 'x list \<Rightarrow> 's \<Rightarrow> 's" where
  "for_loop body [] s = s"
| "for_loop body (x # xs) s =
     (case body x s of Next s' \<Rightarrow> for_loop body xs s' | Break s' \<Rightarrow> s')"

text \<open>The body of the loop over \<open>best_chunks\<close>; the state is \<open>(doc_context, total_chars)\<close>.\<close>

fun chunk_body :: "string list \<Rightarrow> int \<Rightarrow> chunk \<Rightarrow> string \<times> nat \<Rightarrow> (string \<times> nat) ctl" where
  "chunk_body txs max_context_chars c (doc_context, total_chars) =
     (let chunk_text = get_text_by_index txs (faiss_index c) in
      if chunk_text \<noteq> [] then
        if int total_chars + int (length chunk_text) + int (length doc_context) < max_context_chars
        then Next (doc_context @ NL @ chunk_text @ NL, total_chars + length chunk_text)
        else Break (doc_context, total_chars)
      else Next (doc_context, total_chars))"

text \<open>The section built for one document, with the running total after it.\<close>

definition doc_section :: "string list \<Rightarrow> int \<Rightarrow> doc \<Rightarrow> nat \<Rightarrow> string \<times> nat" where
  "doc_section txs max_context_chars d total_chars =
     for_loop (chunk_body txs max_context_chars) (take 10 (matching_chunks d))
       (header (doc_id d), total_chars)"

text \<open>The body of the loop over \<open>top_doc_scores\<close>; the state is
  \<open>(context_parts, total_chars)\<close>.\<close>

fun doc_body :: "string list \<Rightarrow> int \<Rightarrow> doc \<Rightarrow> string list \<times> nat \<Rightarrow> (string list \<times> nat) ctl" where
  "doc_body txs max_context_chars d (context_parts, total_chars) =
     (case doc_section txs max_context_chars d total_chars of
        (doc_context, total_chars') \<Rightarrow>
          (let header_len = length (header (doc_id d));
               context_parts' =
                 (if length doc_context > header_len then context_parts @ [doc_context]
                  else context_parts)
           in if max_context_chars \<le> int total_chars' then Break (context_parts', total_chars')
              else Next (context_parts', total_chars')))"

definition build_context :: "string list \<Rightarrow> int \<Rightarrow> doc list \<Rightarrow> string list \<times> nat" where
  "build_context txs max_context_chars top_doc_scores =
     for_loop (doc_body txs max_context_chars) top_doc_scores ([], 0)"

text \<open>\<open>sep.join(parts)\<close>.\<close>

fun join :: "string \<Rightarrow> string list \<Rightarrow> string" where
  "join sep [] = []"
| "join sep [p] = p"
| "join sep (p # q # ps) = p @ sep @ join sep (q # ps)"

definition summary :: "doc \<Rightarrow> doc_summary" where
  "summary d =
     \<lparr>sum_doc_id = doc_id d, sum_score = doc_score d,
      num_matching_chunks = length (matching_chunks d)\<rparr>"

definition search :: "two_stage_search \<Rightarrow> (real \<times> int) list \<Rightarrow> int \<Rightarrow> int \<Rightarrow> error + result" where
  "search self hits top_docs max_context_chars =
     (case select_documents (metadata self) hits top_docs of
        Inl e \<Rightarrow> Inl e
      | Inr top_doc_scores \<Rightarrow>
          (let full_context =
                 join NL (fst (build_context (texts self) max_context_chars top_doc_scores))
           in Inr \<lparr>context_str = full_context,
                   top_documents = map doc_id top_doc_scores,
                   document_scores = map summary top_doc_scores,
                   context_chars = length full_context\<rparr>))"

section \<open>Specification side: the surviving hits of one document\<close>

text \<open>\<open>d.get(k, [])\<close> on the dictionary \<open>doc_chunks\<close>.\<close>

definition dict_get :: "(string \<times> chunk list) list \<Rightarrow> string \<Rightarrow> chunk list" where
  "dict_get d k = (case map_of d k of None \<Rightarrow> [] | Some vs \<Rightarrow> vs)"

text \<open>
  These two are not translations of code: they say, in the words of the specification,
  which hits belong to document \<open>k\<close>, and the grouping loop is then proved to compute
  them. The surviving hits of \<open>k\<close> are the hits, in the order of the hit list, whose index
  is not negative and whose metadata entry names \<open>k\<close>; \<open>hit_chunks\<close> gives them as chunk
  entries, \<open>hit_scores\<close> gives their raw similarity scores \<open>s_1..s_n\<close>.
\<close>

definition hit_chunks :: "meta list \<Rightarrow> (real \<times> int) list \<Rightarrow> string \<Rightarrow> chunk list" where
  "hit_chunks md hits k =
     map (\<lambda>h. \<lparr>chunk_index = meta_chunk_index (md ! nat (snd h)), faiss_index = snd h, score = fst h\<rparr>)
       (filter (\<lambda>h. 0 \<le> snd h \<and> meta_doc_id (md ! nat (snd h)) = k) hits)"

definition hit_scores :: "meta list \<Rightarrow> (real \<times> int) list \<Rightarrow> string \<Rightarrow> real list" where
  "hit_scores md hits k =
     map fst (filter (\<lambda>h. 0 \<le> snd h \<and> meta_doc_id (md ! nat (snd h)) = k) hits)"

section \<open>Specification side: the layout of the emitted sections\<close>

text \<open>
  These say what an emitted section looks like, and the two loops of stage 2 are then
  proved to produce it: a section of a document is its header followed, for each chunk
  taken, by a newline, the chunk's text and a newline. \<open>section_chars\<close> is the number of
  text characters of the chunks taken, the amount the section adds to \<open>total_chars\<close>.
  \<open>secs_ok\<close>: every section takes at least one chunk, the chunks taken are among the
  document's first ten matching chunks, in their order, and each has a text that is not
  empty.
\<close>

definition text_of :: "string list \<Rightarrow> chunk \<Rightarrow> string" where
  "text_of txs c = get_text_by_index txs (faiss_index c)"

definition section_chars :: "string list \<Rightarrow> chunk list \<Rightarrow> nat" where
  "section_chars txs cs = sum_list (map (\<lambda>c. length (text_of txs c)) cs)"

definition render_section :: "string list \<Rightarrow> doc \<times> chunk list \<Rightarrow> string" where
  "render_section txs sec =
     header (doc_id (fst sec)) @ concat (map (\<lambda>c. NL @ text_of txs c @ NL) (snd sec))"

definition secs_ok :: "string list \<Rightarrow> (doc \<times> chunk list) list \<Rightarrow> bool" where
  "secs_ok txs secs =
     list_all (\<lambda>sec. snd sec \<noteq> [] \<and> subseq (snd sec) (take 10 (matching_chunks (fst sec))) \<and>
                 list_all (\<lambda>c. text_of txs c \<noteq> []) (snd sec)) secs"

section \<open>Example inputs\<close>

text \<open>Three documents of one chunk each, with one-character texts.\<close>

definition three_docs :: two_stage_search where
  "three_docs =
     \<lparr>ntotal = 3,
      metadata = [\<lparr>meta_doc_id = ''a'', meta_chunk_index = 0\<rparr>,
                  \<lparr>meta_doc_id = ''b'', meta_chunk_index = 0\<rparr>,
                  \<lparr>meta_doc_id = ''c'', meta_chunk_index = 0\<rparr>],
      texts = [''x'', ''y'', ''z'']\<rparr>"

text \<open>Document \<open>a\<close> with one chunk of 40 characters, document \<open>b\<close> with one chunk of
  one character.\<close>

definition long_and_short :: two_stage_search where
  "long_and_short =
     \<lparr>ntotal = 2,
      metadata = [\<lparr>meta_doc_id = ''a'', meta_chunk_index = 0\<rparr>,
                  \<lparr>meta_doc_id = ''b'', meta_chunk_index = 0\<rparr>],
      texts = [''0123456789012345678901234567890123456789'', ''x'']\<rparr>"

text \<open>Document \<open>A\<close> with two chunks, document \<open>B\<close> with one.\<close>

definition two_and_one :: two_stage_search where
  "two_and_one =
     \<lparr>ntotal = 3,
      metadata = [\<lparr>meta_doc_id = ''A'', meta_chunk_index = 0\<rparr>,
                  \<lparr>meta_doc_id = ''A'', meta_chunk_index = 1\<rparr>,
                  \<lparr>meta_doc_id = ''B'', meta_chunk_index = 0\<rparr>],
      texts = [''x'', ''y'', ''z'']\<rparr>"

text \<open>\<open>is_section p d\<close>: the string \<open>p\<close> is a section of document \<open>d\<close> with content, that
  is, the header of \<open>d\<close> followed by at least one more character.\<close>

definition is_section :: "string \<Rightarrow> doc \<Rightarrow> bool" where
  "is_section p d = (prefix (header (doc_id d)) p \<and> length (header (doc_id d)) < length p)"

section \<open>Basic facts\<close>

lemmas search_eval =
  search_def select_documents_def aggregate_def score_document_def rank_def py_take_def
  build_context_def doc_section_def summary_def get_text_by_index_def header_def NL_def Let_def

lemma length_NL: "length NL = 1"
  by (simp add: NL_def)

lemma length_header: "length (header d) = 20 + length d"
  by (simp add: header_def NL_def)

lemma group_chunks_all_negative:
  "\<forall>h \<in> set hits. snd h < 0 \<Longrightarrow> group_chunks md hits acc = Inr acc"
  by (induction hits arbitrary: acc) auto

lemma group_chunks_in_range:
  "\<forall>h \<in> set hits. snd h < int (length md) \<Longrightarrow> \<exists>r. group_chunks md hits acc = Inr r"
  by (induction hits arbitrary: acc) auto

lemma search_in_range:
  assumes "\<forall>h \<in> set hits. snd h < int (length (metadata self))"
  shows "\<exists>r. search self hits top_docs max_context_chars = Inr r"
proof -
  from group_chunks_in_range [OF assms, of "[]"]
  obtain g where "group_chunks (metadata self) hits [] = Inr g" ..
  then show ?thesis
    by (simp add: search_def select_documents_def aggregate_def Let_def)
qed

section \<open>Invariants of the two loops of stage 2\<close>

lemma chunk_body_cases:
  "chunk_body txs m c (dc, t) = Next (dc, t) \<or>
   chunk_body txs m c (dc, t) = Break (dc, t) \<or>
   (\<exists>tx. tx \<noteq> [] \<and> int t + int (length tx) + int (length dc) < m \<and>
      chunk_body txs m c (dc, t) = Next (dc @ NL @ tx @ NL, t + length tx))"
  by (simp add: Let_def)

lemma chunk_loop_inv:
  "for_loop (chunk_body txs m) cs (dc, t) = (dc', t') \<Longrightarrow>
     t \<le> t' \<and> prefix dc dc' \<and>
     (\<exists>k \<le> length cs. length dc' + t = length dc + t' + 2 * k) \<and>
     ((dc', t') = (dc, t) \<or> (int t' + int (length dc) < m \<and> length dc < length dc'))"
proof (induction cs arbitrary: dc t)
  case Nil
  then show ?case by simp
next
  case (Cons c cs)
  consider (skip) "chunk_body txs m c (dc, t) = Next (dc, t)"
    | (stop) "chunk_body txs m c (dc, t) = Break (dc, t)"
    | (app) tx where "tx \<noteq> []" "int t + int (length tx) + int (length dc) < m"
        "chunk_body txs m c (dc, t) = Next (dc @ NL @ tx @ NL, t + length tx)"
    using chunk_body_cases [of txs m c dc t] by blast
  then show ?case
  proof cases
    case skip
    with Cons.prems have "for_loop (chunk_body txs m) cs (dc, t) = (dc', t')" by simp
    from Cons.IH [OF this] show ?thesis by auto
  next
    case stop
    with Cons.prems show ?thesis by auto
  next
    case app
    let ?dc = "dc @ NL @ tx @ NL"
    from app Cons.prems
    have run: "for_loop (chunk_body txs m) cs (?dc, t + length tx) = (dc', t')" by simp
    from Cons.IH [OF run] obtain k where
      le: "t + length tx \<le> t'" and pre: "prefix ?dc dc'" and k: "k \<le> length cs"
      and len: "length dc' + (t + length tx) = length ?dc + t' + 2 * k"
      and bud: "(dc', t') = (?dc, t + length tx) \<or> int t' + int (length ?dc) < m"
      by auto
    have 1: "t \<le> t'" using le by simp
    have 2: "prefix dc dc'" using pre by (meson append_prefixD)
    have 3: "\<exists>k \<le> length (c # cs). length dc' + t = length dc + t' + 2 * k"
      using len k le by (intro exI [of _ "Suc k"]) (simp add: length_NL)
    have 4: "int t' + int (length dc) < m"
      using bud app(2) by (auto simp: length_NL)
    have 5: "length dc < length dc'" using len le by (simp add: length_NL)
    show ?thesis using 1 2 3 4 5 by blast
  qed
qed

lemma chunk_loop_exhausted:
  "m \<le> int t + int (length dc) \<Longrightarrow> for_loop (chunk_body txs m) cs (dc, t) = (dc, t)"
  by (induction cs) (auto simp: Let_def)

lemma length_join: "ps \<noteq> [] \<Longrightarrow> length (join NL ps) + 1 = sum_list (map (\<lambda>p. length p + 1) ps)"
  by (induction NL ps rule: join.induct) (auto simp: length_NL)

lemma doc_section_inv:
  assumes "doc_section txs m d t = (dc, t')"
  shows "t \<le> t'" and "prefix (header (doc_id d)) dc"
    and "length dc + t \<le> length (header (doc_id d)) + t' + 20"
    and "(dc, t') = (header (doc_id d), t) \<or>
         (int t' + int (length (header (doc_id d))) < m \<and> length (header (doc_id d)) < length dc)"
proof -
  from chunk_loop_inv [OF assms [unfolded doc_section_def]]
  obtain k where a: "t \<le> t'" and b: "prefix (header (doc_id d)) dc"
    and k: "k \<le> length (take 10 (matching_chunks d))"
    and len: "length dc + t = length (header (doc_id d)) + t' + 2 * k"
    and c: "(dc, t') = (header (doc_id d), t) \<or>
         (int t' + int (length (header (doc_id d))) < m \<and> length (header (doc_id d)) < length dc)"
    by blast
  show "t \<le> t'" by fact
  show "prefix (header (doc_id d)) dc" by fact
  from k have "k \<le> 10" by simp
  with len a show "length dc + t \<le> length (header (doc_id d)) + t' + 20" by simp
  show "(dc, t') = (header (doc_id d), t) \<or>
         (int t' + int (length (header (doc_id d))) < m \<and> length (header (doc_id d)) < length dc)" by fact
qed

lemma doc_body_inv:
  assumes "ctl_state (doc_body txs m d (ps, t)) = (ps', t')"
  shows "(ps' = ps \<and> t' = t \<and> fst (doc_section txs m d t) = header (doc_id d)) \<or>
         (\<exists>p. ps' = ps @ [p] \<and> p = fst (doc_section txs m d t) \<and> is_section p d \<and> t \<le> t' \<and> int t' < m \<and>
              length p + 1 + t \<le> length (header (doc_id d)) + 21 + t')"
proof -
  obtain dc t1 where sec: "doc_section txs m d t = (dc, t1)" by (cases "doc_section txs m d t")
  note inv = doc_section_inv [OF sec]
  from assms sec have t1: "t' = t1"
    and ps': "ps' = (if length (header (doc_id d)) < length dc then ps @ [dc] else ps)"
    by (auto simp: Let_def split: if_splits)
  from inv(4) show ?thesis
  proof
    assume "(dc, t1) = (header (doc_id d), t)"
    then show ?thesis using ps' t1 sec by simp
  next
    assume "int t1 + int (length (header (doc_id d))) < m \<and> length (header (doc_id d)) < length dc"
    then show ?thesis using ps' t1 sec inv(1,2,3) by (simp add: is_section_def)
  qed
qed

lemma doc_loop_inv:
  "for_loop (doc_body txs m) ds (ps, t) = (ps', t') \<Longrightarrow>
     t \<le> t' \<and>
     (\<exists>new inc. ps' = ps @ new \<and> subseq inc ds \<and> list_all2 is_section new inc \<and>
        sum_list (map (\<lambda>p. length p + 1) new) + t
          \<le> sum_list (map (\<lambda>d. length (header (doc_id d)) + 21) ds) + t' \<and>
        (new = [] \<and> t' = t \<or> int t' < m))"
proof (induction ds arbitrary: ps t)
  case Nil
  then show ?case by simp
next
  case (Cons d ds)
  obtain ps1 t1 where st: "ctl_state (doc_body txs m d (ps, t)) = (ps1, t1)"
    by (cases "ctl_state (doc_body txs m d (ps, t))")
  note step = doc_body_inv [OF st]
  show ?case
  proof (cases "doc_body txs m d (ps, t)")
    case (Next s)
    with st have s: "s = (ps1, t1)" by simp
    with Next Cons.prems have "for_loop (doc_body txs m) ds (ps1, t1) = (ps', t')" by simp
    from Cons.IH [OF this] obtain new inc where
      le: "t1 \<le> t'" and ps': "ps' = ps1 @ new" and sub: "subseq inc ds"
      and secs: "list_all2 is_section new inc"
      and len: "sum_list (map (\<lambda>p. length p + 1) new) + t1
          \<le> sum_list (map (\<lambda>d. length (header (doc_id d)) + 21) ds) + t'"
      and bud: "new = [] \<and> t' = t1 \<or> int t' < m" by blast
    from step show ?thesis
    proof (elim disjE exE conjE)
      assume "ps1 = ps" "t1 = t"
      then show ?thesis using le ps' sub secs len bud
        by (intro conjI exI [of _ new] exI [of _ inc]) auto
    next
      fix p assume p: "ps1 = ps @ [p]" "is_section p d" "t \<le> t1" "int t1 < m"
        "length p + 1 + t \<le> length (header (doc_id d)) + 21 + t1"
      have b: "int t' < m" using bud p(4) by auto
      have c: "sum_list (map (\<lambda>p. length p + 1) (p # new)) + t
          \<le> sum_list (map (\<lambda>d. length (header (doc_id d)) + 21) (d # ds)) + t'"
        using len p(5) by simp
      show ?thesis using le p(1,2,3) ps' sub secs b c
        by (intro conjI exI [of _ "p # new"] exI [of _ "d # inc"]) auto
    qed
  next
    case (Break s)
    with st have s: "s = (ps1, t1)" by simp
    with Break Cons.prems have eq: "ps' = ps1" "t' = t1" by simp_all
    from step show ?thesis
    proof (elim disjE exE conjE)
      assume "ps1 = ps" "t1 = t"
      then show ?thesis using eq
        by (intro conjI exI [of _ "[]"] exI [of _ "[]"]) auto
    next
      fix p assume p: "ps1 = ps @ [p]" "is_section p d" "t \<le> t1" "int t1 < m"
        "length p + 1 + t \<le> length (header (doc_id d)) + 21 + t1"
      then show ?thesis using eq
        by (intro conjI exI [of _ "[p]"] exI [of _ "[d]"]) auto
    qed
  qed
qed

lemma search_InrD:
  assumes "search self hits top_docs m = Inr r"
  obtains tds where "select_documents (metadata self) hits top_docs = Inr tds"
    and "context_str r = join NL (fst (build_context (texts self) m tds))"
    and "top_documents r = map doc_id tds"
    and "document_scores r = map summary tds"
    and "context_chars r = length (context_str r)"
proof (cases "select_documents (metadata self) hits top_docs")
  case (Inl e)
  with assms show ?thesis by (simp add: search_def)
next
  case (Inr tds)
  with assms have "r = \<lparr>context_str = join NL (fst (build_context (texts self) m tds)),
        top_documents = map doc_id tds, document_scores = map summary tds,
        context_chars = length (join NL (fst (build_context (texts self) m tds)))\<rparr>"
    by (simp add: search_def Let_def)
  then show ?thesis using Inr that by simp
qed

lemma build_context_inv:
  assumes "build_context txs m tds = (ps, t)"
  shows "\<exists>inc. subseq inc tds \<and> list_all2 is_section ps inc \<and>
        sum_list (map (\<lambda>p. length p + 1) ps)
          \<le> sum_list (map (\<lambda>d. length (header (doc_id d)) + 21) tds) + t \<and>
        (ps = [] \<and> t = 0 \<or> int t < m)"
  using doc_loop_inv [OF assms [unfolded build_context_def]] by auto

lemma chunk_loop_first_too_long:
  assumes "m < int (length (get_text_by_index txs (faiss_index c)))"
  shows "for_loop (chunk_body txs m) (c # cs) (dc, t) = (dc, t)"
proof (cases "get_text_by_index txs (faiss_index c) = []")
  case True
  with assms have "m \<le> int t + int (length dc)" by simp
  then show ?thesis by (rule chunk_loop_exhausted)
next
  case False
  with assms show ?thesis by (simp add: Let_def)
qed

lemma doc_body_unchanged:
  assumes "fst (doc_section txs m d t) = header (doc_id d)"
  shows "fst (ctl_state (doc_body txs m d (ps, t))) = ps"
proof -
  obtain ps' t' where st: "ctl_state (doc_body txs m d (ps, t)) = (ps', t')"
    by (cases "ctl_state (doc_body txs m d (ps, t))")
  from doc_body_inv [OF st] assms have "ps' = ps" by (auto simp: is_section_def)
  with st show ?thesis by simp
qed

lemma chunk_body_budget:
  "int t < m \<Longrightarrow> int (snd (ctl_state (chunk_body txs m c (dc, t)))) < m"
  by (simp add: Let_def)

lemma doc_body_no_break:
  assumes "int t < m"
  shows "\<exists>st. doc_body txs m d (ps, t) = Next st \<and> int (snd st) < m"
proof -
  obtain dc t' where sec: "doc_section txs m d t = (dc, t')" by (cases "doc_section txs m d t")
  from doc_section_inv(4) [OF sec] assms have "int t' < m" by auto
  with sec show ?thesis by (simp add: Let_def)
qed

lemma doc_loop_no_break:
  "int t < m \<Longrightarrow>
     for_loop (doc_body txs m) ds (ps, t) = foldl (\<lambda>st d. ctl_state (doc_body txs m d st)) (ps, t) ds \<and>
     int (snd (for_loop (doc_body txs m) ds (ps, t))) < m"
proof (induction ds arbitrary: ps t)
  case Nil
  then show ?case by simp
next
  case (Cons d ds)
  from doc_body_no_break [OF Cons.prems, of txs d ps] obtain ps1 t1 where
    st: "doc_body txs m d (ps, t) = Next (ps1, t1)" and b: "int t1 < m" by auto
  from Cons.IH [OF b, of ps1]
  have eq: "for_loop (doc_body txs m) ds (ps1, t1) =
      foldl (\<lambda>st d. ctl_state (doc_body txs m d st)) (ps1, t1) ds"
    and lt: "int (snd (for_loop (doc_body txs m) ds (ps1, t1))) < m" by blast+
  have "for_loop (doc_body txs m) (d # ds) (ps, t) = for_loop (doc_body txs m) ds (ps1, t1)"
    using st by (simp del: doc_body.simps)
  moreover have "foldl (\<lambda>st d. ctl_state (doc_body txs m d st)) (ps, t) (d # ds) =
      foldl (\<lambda>st d. ctl_state (doc_body txs m d st)) (ps1, t1) ds"
    using st by (simp del: doc_body.simps)
  ultimately show ?case using eq lt by metis
qed

section \<open>The sections the loops emit\<close>

lemma length_render_section:
  "length (render_section txs (d, cs)) =
     length (header (doc_id d)) + section_chars txs cs + 2 * length cs"
  by (induction cs) (simp_all add: render_section_def section_chars_def length_NL)

lemma chunk_loop_trace:
  "for_loop (chunk_body txs m) cs (dc, t) = (dc', t') \<Longrightarrow>
     \<exists>app. subseq app cs \<and> (\<forall>c \<in> set app. text_of txs c \<noteq> []) \<and>
       dc' = dc @ concat (map (\<lambda>c. NL @ text_of txs c @ NL) app) \<and>
       t' = t + section_chars txs app \<and>
       (app = [] \<or> int t + int (length dc') \<le> m + 1)"
proof (induction cs arbitrary: dc t)
  case Nil
  then show ?case by (intro exI [of _ "[]"]) (simp add: section_chars_def)
next
  case (Cons c cs)
  let ?tx = "text_of txs c"
  show ?case
  proof (cases "?tx = []")
    case True
    with Cons.prems have "for_loop (chunk_body txs m) cs (dc, t) = (dc', t')"
      by (simp add: text_of_def)
    from Cons.IH [OF this] obtain app where
      "subseq app cs" "\<forall>c \<in> set app. text_of txs c \<noteq> []"
      "dc' = dc @ concat (map (\<lambda>c. NL @ text_of txs c @ NL) app)"
      "t' = t + section_chars txs app" "app = [] \<or> int t + int (length dc') \<le> m + 1"
      by blast
    then show ?thesis by (intro exI [of _ app]) auto
  next
    case False
    show ?thesis
    proof (cases "int t + int (length ?tx) + int (length dc) < m")
      case ok: True
      let ?dc = "dc @ NL @ ?tx @ NL"
      from False ok Cons.prems
      have "for_loop (chunk_body txs m) cs (?dc, t + length ?tx) = (dc', t')"
        by (simp add: text_of_def Let_def)
      from Cons.IH [OF this] obtain app where
        a: "subseq app cs" and b: "\<forall>c \<in> set app. text_of txs c \<noteq> []"
        and c: "dc' = ?dc @ concat (map (\<lambda>c. NL @ text_of txs c @ NL) app)"
        and d: "t' = t + length ?tx + section_chars txs app"
        and e: "app = [] \<or> int (t + length ?tx) + int (length dc') \<le> m + 1"
        by blast
      have e': "int t + int (length dc') \<le> m + 1"
      proof (cases "app = []")
        case True
        with c have "length dc' = length dc + length ?tx + 2" by (simp add: length_NL)
        with ok show ?thesis by simp
      next
        case False
        with e show ?thesis by simp
      qed
      show ?thesis using a b c d e' False
        by (intro exI [of _ "c # app"]) (simp add: section_chars_def)
    next
      case stop: False
      with False Cons.prems have "(dc', t') = (dc, t)" by (simp add: text_of_def Let_def)
      then show ?thesis by (intro exI [of _ "[]"]) (simp add: section_chars_def)
    qed
  qed
qed

lemma doc_body_trace:
  assumes "ctl_state (doc_body txs m d (ps, t)) = (ps', t')"
  shows "(ps' = ps \<and> t' = t) \<or>
         (\<exists>cs. cs \<noteq> [] \<and> subseq cs (take 10 (matching_chunks d)) \<and>
            (\<forall>c \<in> set cs. text_of txs c \<noteq> []) \<and>
            ps' = ps @ [render_section txs (d, cs)] \<and> t' = t + section_chars txs cs \<and>
            int t + int (length (render_section txs (d, cs))) \<le> m + 1)"
proof -
  obtain dc t1 where sec: "doc_section txs m d t = (dc, t1)" by (cases "doc_section txs m d t")
  from assms sec have t1: "t' = t1"
    and ps': "ps' = (if length (header (doc_id d)) < length dc then ps @ [dc] else ps)"
    by (auto simp: Let_def split: if_splits)
  from chunk_loop_trace [OF sec [unfolded doc_section_def]] obtain app where
    a: "subseq app (take 10 (matching_chunks d))" and b: "\<forall>c \<in> set app. text_of txs c \<noteq> []"
    and c: "dc = render_section txs (d, app)"
    and d: "t1 = t + section_chars txs app"
    and e: "app = [] \<or> int t + int (length dc) \<le> m + 1"
    by (auto simp: render_section_def)
  show ?thesis
  proof (cases "app = []")
    case True
    with c d ps' t1 show ?thesis by (simp add: render_section_def section_chars_def)
  next
    case False
    then obtain x xs where app: "app = x # xs" by (cases app) auto
    have "length (header (doc_id d)) < length dc"
      using c app by (simp add: length_render_section)
    with ps' have "ps' = ps @ [render_section txs (d, app)]" using c by simp
    with False a b d e t1 c show ?thesis by auto
  qed
qed

lemma doc_loop_trace:
  "for_loop (doc_body txs m) ds (ps, t) = (ps', t') \<Longrightarrow>
     \<exists>secs. ps' = ps @ map (render_section txs) secs \<and> subseq (map fst secs) ds \<and>
        secs_ok txs secs \<and>
        t' = t + sum_list (map (\<lambda>sec. section_chars txs (snd sec)) secs) \<and>
        (secs = [] \<or>
         int t + int (sum_list (map (\<lambda>sec. section_chars txs (snd sec)) (butlast secs)))
           + int (length (render_section txs (last secs))) \<le> m + 1)"
proof (induction ds arbitrary: ps t)
  case Nil
  then show ?case by (intro exI [of _ "[]"]) (simp add: secs_ok_def)
next
  case (Cons d ds)
  obtain ps1 t1 where st: "ctl_state (doc_body txs m d (ps, t)) = (ps1, t1)"
    by (cases "ctl_state (doc_body txs m d (ps, t))")
  note step = doc_body_trace [OF st]
  have rest: "\<exists>secs. ps' = ps1 @ map (render_section txs) secs \<and> subseq (map fst secs) ds \<and>
        secs_ok txs secs \<and>
        t' = t1 + sum_list (map (\<lambda>sec. section_chars txs (snd sec)) secs) \<and>
        (secs = [] \<or>
         int t1 + int (sum_list (map (\<lambda>sec. section_chars txs (snd sec)) (butlast secs)))
           + int (length (render_section txs (last secs))) \<le> m + 1)"
  proof (cases "doc_body txs m d (ps, t)")
    case (Next s)
    with st have "s = (ps1, t1)" by simp
    with Next Cons.prems have "for_loop (doc_body txs m) ds (ps1, t1) = (ps', t')" by simp
    from Cons.IH [OF this] show ?thesis .
  next
    case (Break s)
    with st have "s = (ps1, t1)" by simp
    with Break Cons.prems have "ps' = ps1" "t' = t1" by simp_all
    then show ?thesis by (intro exI [of _ "[]"]) (simp add: secs_ok_def)
  qed
  then obtain secs where
    r1: "ps' = ps1 @ map (render_section txs) secs" and r2: "subseq (map fst secs) ds"
    and r3: "secs_ok txs secs"
    and r4: "t' = t1 + sum_list (map (\<lambda>sec. section_chars txs (snd sec)) secs)"
    and r5: "secs = [] \<or>
         int t1 + int (sum_list (map (\<lambda>sec. section_chars txs (snd sec)) (butlast secs)))
           + int (length (render_section txs (last secs))) \<le> m + 1"
    by blast
  from step show ?case
  proof (elim disjE exE conjE)
    assume "ps1 = ps" "t1 = t"
    with r1 r2 r3 r4 r5 show ?thesis by (intro exI [of _ secs]) auto
  next
    fix cs assume cs: "cs \<noteq> []" "subseq cs (take 10 (matching_chunks d))"
      "\<forall>c \<in> set cs. text_of txs c \<noteq> []"
      "ps1 = ps @ [render_section txs (d, cs)]" "t1 = t + section_chars txs cs"
      "int t + int (length (render_section txs (d, cs))) \<le> m + 1"
    have ok: "secs_ok txs ((d, cs) # secs)"
      using r3 cs(1,2,3) by (simp add: secs_ok_def list_all_iff)
    have bud: "int t + int (sum_list (map (\<lambda>sec. section_chars txs (snd sec)) (butlast ((d, cs) # secs))))
           + int (length (render_section txs (last ((d, cs) # secs)))) \<le> m + 1"
      using r5 cs(5,6) by (cases "secs = []") auto
    show ?thesis using r1 r2 r4 cs(4,5) ok bud
      by (intro exI [of _ "(d, cs) # secs"]) auto
  qed
qed

lemma length_render_section_sec:
  "length (render_section txs sec) =
     length (header (doc_id (fst sec))) + section_chars txs (snd sec) + 2 * length (snd sec)"
  using length_render_section [of txs "fst sec" "snd sec"] by simp

lemma sum_render_sections:
  "sum_list (map (\<lambda>p. length p + 1) (map (render_section txs) secs)) =
     sum_list (map (\<lambda>sec. section_chars txs (snd sec)) secs) +
     sum_list (map (\<lambda>sec. length (header (doc_id (fst sec))) + 2 * length (snd sec) + 1) secs)"
  by (induction secs) (simp_all add: length_render_section_sec)

lemma build_context_trace:
  assumes "build_context txs m tds = (ps, t)"
  shows "\<exists>secs. ps = map (render_section txs) secs \<and> subseq (map fst secs) tds \<and>
        secs_ok txs secs \<and>
        (secs = [] \<or>
         int (sum_list (map (\<lambda>sec. section_chars txs (snd sec)) (butlast secs)))
           + int (length (render_section txs (last secs))) \<le> m + 1)"
  using doc_loop_trace [OF assms [unfolded build_context_def]] by auto

lemma context_length_of_sections:
  assumes "secs \<noteq> []"
    and "int (sum_list (map (\<lambda>sec. section_chars txs (snd sec)) (butlast secs)))
           + int (length (render_section txs (last secs))) \<le> m + 1"
  shows "int (length (join NL (map (render_section txs) secs)))
           \<le> m + 1 + int (sum_list (map (\<lambda>sec. length (header (doc_id (fst sec)))
                                              + 2 * length (snd sec) + 1) (butlast secs)))"
proof -
  from assms(1) have split: "secs = butlast secs @ [last secs]" by simp
  have ne: "map (render_section txs) secs \<noteq> []" using assms(1) by simp
  have "length (join NL (map (render_section txs) secs)) + 1
      = sum_list (map (\<lambda>p. length p + 1) (map (render_section txs) secs))"
    by (rule length_join [OF ne])
  also have "\<dots> = sum_list (map (\<lambda>p. length p + 1) (map (render_section txs) (butlast secs)))
        + (length (render_section txs (last secs)) + 1)"
    by (subst split) simp
  also have "\<dots> = sum_list (map (\<lambda>sec. section_chars txs (snd sec)) (butlast secs)) +
     sum_list (map (\<lambda>sec. length (header (doc_id (fst sec))) + 2 * length (snd sec) + 1) (butlast secs))
      + (length (render_section txs (last secs)) + 1)"
    by (simp only: sum_render_sections)
  finally show ?thesis using assms(2) by linarith
qed

section \<open>Facts about grouping and ranking\<close>

lemma score_hit_chunks: "map score (hit_chunks md hits k) = hit_scores md hits k"
  by (simp add: hit_chunks_def hit_scores_def comp_def)

lemma keys_dict_append: "fst ` set (dict_append d k v) = insert k (fst ` set d)"
  by (induction d k v rule: dict_append.induct) auto

lemma distinct_dict_append:
  "distinct (map fst d) \<Longrightarrow> distinct (map fst (dict_append d k v))"
  by (induction d k v rule: dict_append.induct) (auto simp: keys_dict_append)

lemma dict_get_dict_append:
  "dict_get (dict_append d k v) k' = (if k' = k then dict_get d k @ [v] else dict_get d k')"
  by (induction d k v rule: dict_append.induct) (auto simp: dict_get_def)

lemma nonempty_dict_append:
  "\<forall>kv \<in> set d. snd kv \<noteq> [] \<Longrightarrow> \<forall>kv \<in> set (dict_append d k v). snd kv \<noteq> []"
  by (induction d k v rule: dict_append.induct) auto

lemma group_chunks_inv:
  "group_chunks md hits d = Inr g \<Longrightarrow> distinct (map fst d) \<Longrightarrow> \<forall>kv \<in> set d. snd kv \<noteq> [] \<Longrightarrow>
     distinct (map fst g) \<and> (\<forall>kv \<in> set g. snd kv \<noteq> []) \<and>
     (\<forall>k. dict_get g k = dict_get d k @ hit_chunks md hits k)"
proof (induction md hits d rule: group_chunks.induct)
  case (1 md d)
  then show ?case by (simp add: hit_chunks_def)
next
  case (2 md s idx hits d)
  show ?case
  proof (cases "idx < 0")
    case True
    with 2 show ?thesis by (simp add: hit_chunks_def)
  next
    case False
    with "2.prems"(1) have inr: "\<not> int (length md) \<le> idx" by (auto split: if_splits)
    let ?k = "meta_doc_id (md ! nat idx)"
    let ?c = "\<lparr>chunk_index = meta_chunk_index (md ! nat idx), faiss_index = idx, score = s\<rparr>"
    from False inr "2.prems"(1)
    have run: "group_chunks md hits (dict_append d ?k ?c) = Inr g" by simp
    from "2.IH"(2) [OF False inr run distinct_dict_append [OF "2.prems"(2)]
        nonempty_dict_append [OF "2.prems"(3)]]
    have a: "distinct (map fst g)" and b: "\<forall>kv \<in> set g. snd kv \<noteq> []"
      and c: "\<And>k. dict_get g k = dict_get (dict_append d ?k ?c) k @ hit_chunks md hits k"
      by blast+
    have "dict_get g k = dict_get d k @ hit_chunks md ((s, idx) # hits) k" for k
      using c [of k] False by (simp add: dict_get_dict_append hit_chunks_def)
    with a b show ?thesis by blast
  qed
qed

lemma group_chunks_entry:
  assumes "group_chunks md hits [] = Inr g" and "(k, cs) \<in> set g"
  shows "cs = hit_chunks md hits k" and "cs \<noteq> []"
proof -
  from group_chunks_inv [OF assms(1)]
  have a: "distinct (map fst g)" and b: "\<forall>kv \<in> set g. snd kv \<noteq> []"
    and c: "\<And>k. dict_get g k = hit_chunks md hits k"
    by (simp_all add: dict_get_def)
  from a assms(2) have "map_of g k = Some cs" by simp
  then have "dict_get g k = cs" by (simp add: dict_get_def)
  with c show "cs = hit_chunks md hits k" by simp
  from b assms(2) show "cs \<noteq> []" by auto
qed

lemma set_py_take: "set (py_take n xs) \<subseteq> set xs"
  by (auto simp: py_take_def dest: in_set_takeD)

lemma aggregate_InrD:
  assumes "aggregate md hits = Inr docs"
  obtains g where "group_chunks md hits [] = Inr g" and "docs = map score_document g"
  using assms by (auto simp: aggregate_def split: sum.splits)

lemma select_documents_InrD:
  assumes "select_documents md hits top_docs = Inr tds"
  obtains docs where "aggregate md hits = Inr docs" and "tds = py_take top_docs (rank docs)"
  using assms by (auto simp: select_documents_def split: sum.splits)

lemma aggregate_entry:
  assumes "aggregate md hits = Inr docs" and "d \<in> set docs"
  shows "hit_scores md hits (doc_id d) \<noteq> []"
    and "length (matching_chunks d) = length (hit_scores md hits (doc_id d))"
    and "doc_score d = sum_list (hit_scores md hits (doc_id d))
           / sqrt (real (length (hit_scores md hits (doc_id d))))"
proof -
  from assms(1) obtain g where g: "group_chunks md hits [] = Inr g" "docs = map score_document g"
    by (rule aggregate_InrD)
  with assms(2) obtain k cs where kv: "(k, cs) \<in> set g" "d = score_document (k, cs)" by auto
  from group_chunks_entry [OF g(1) kv(1)]
  have cs: "cs = hit_chunks md hits k" "cs \<noteq> []" by simp_all
  have sc: "map score cs = hit_scores md hits k" using cs(1) by (simp add: score_hit_chunks)
  have k: "doc_id d = k" using kv(2) by (simp add: score_document_def)
  have len: "length cs = length (hit_scores md hits k)" using sc by (metis length_map)
  show "hit_scores md hits (doc_id d) \<noteq> []" using cs(2) len k by auto
  show "length (matching_chunks d) = length (hit_scores md hits (doc_id d))"
    using kv(2) len k by (simp add: score_document_def)
  show "doc_score d = sum_list (hit_scores md hits (doc_id d))
           / sqrt (real (length (hit_scores md hits (doc_id d))))"
    using kv(2) len k sc by (simp add: score_document_def)
qed

lemma sqrt2_example: "(19 / 20 :: real) < 17 / 10 / sqrt 2"
proof -
  have "sqrt 2 < sqrt ((3 / 2)\<^sup>2)" by (intro real_sqrt_less_mono) (simp add: power2_eq_square)
  then have "sqrt 2 < 3 / 2" by simp
  moreover have "0 < sqrt (2::real)" by simp
  ultimately show ?thesis by (simp add: field_simps)
qed

lemma two_chunks_outrank:
  "search two_and_one [(0.95, 2), (0.9, 0), (0.8, 1)] 5 12000 =
     Inr \<lparr>context_str = header ''A'' @ NL @ ''x'' @ NL @ NL @ ''y'' @ NL @ NL @ header ''B'' @ NL @ ''z'' @ NL,
          top_documents = [''A'', ''B''],
          document_scores = [\<lparr>sum_doc_id = ''A'', sum_score = (0.9 + 0.8) / sqrt 2, num_matching_chunks = 2\<rparr>,
            \<lparr>sum_doc_id = ''B'', sum_score = 0.95, num_matching_chunks = 1\<rparr>],
          context_chars = 52\<rparr>"
  using sqrt2_example by (simp add: search_eval two_and_one_def)

lemma aggregate_complete:
  assumes "aggregate md hits = Inr docs" and "hit_scores md hits k \<noteq> []"
  shows "\<exists>d \<in> set docs. doc_id d = k"
proof -
  from assms(1) obtain g where g: "group_chunks md hits [] = Inr g" "docs = map score_document g"
    by (rule aggregate_InrD)
  from group_chunks_inv [OF g(1)] have "dict_get g k = hit_chunks md hits k"
    by (simp add: dict_get_def)
  moreover have "hit_chunks md hits k \<noteq> []"
    using assms(2) score_hit_chunks [of md hits k] by auto
  ultimately obtain cs where "map_of g k = Some cs"
    by (auto simp: dict_get_def split: option.splits)
  then have "(k, cs) \<in> set g" by (rule map_of_SomeD)
  then have "score_document (k, cs) \<in> set docs" using g(2) by auto
  then show ?thesis by (force simp: score_document_def)
qed

lemma search_of_aggregate:
  assumes "aggregate (metadata self) hits = Inr docs"
  shows "\<exists>r. search self hits top_docs m = Inr r \<and>
           set (document_scores r) \<subseteq> summary ` set docs"
proof -
  have "select_documents (metadata self) hits top_docs = Inr (py_take top_docs (rank docs))"
    using assms by (simp add: select_documents_def)
  moreover have "set (py_take top_docs (rank docs)) \<subseteq> set docs"
    using set_py_take [of top_docs "rank docs"] by (simp add: rank_def)
  ultimately show ?thesis by (auto simp: search_def Let_def)
qed

lemma rank_sorted: "sorted_wrt (\<lambda>a b. doc_score b \<le> doc_score a) (rank docs)"
proof -
  have "sorted (map (\<lambda>x. - doc_score x) (rank docs))" unfolding rank_def by (rule sorted_sort_key)
  then show ?thesis by (simp add: sorted_map)
qed

lemma rank_stable: "filter (\<lambda>d. doc_score d = s) (rank docs) = filter (\<lambda>d. doc_score d = s) docs"
  using sort_key_stable [of "\<lambda>x. - doc_score x" "- s" docs] by (simp add: rank_def)

lemma rank_mset: "mset (rank docs) = mset docs"
  by (simp add: rank_def)

lemma rank_strict:
  assumes "distinct (map doc_score docs)"
  shows "sorted_wrt (\<lambda>a b. doc_score b < doc_score a) (rank docs)"
proof -
  have "mset (map doc_score (rank docs)) = mset (map doc_score docs)"
    by (simp add: rank_mset)
  then have "distinct (map doc_score (rank docs))"
    using assms by (metis mset_eq_imp_distinct_iff)
  then have "distinct (map (\<lambda>x. - doc_score x) (rank docs))"
    by (simp add: distinct_map inj_on_def)
  moreover have "sorted (map (\<lambda>x. - doc_score x) (rank docs))"
    unfolding rank_def by (rule sorted_sort_key)
  ultimately have "sorted_wrt (<) (map (\<lambda>x. - doc_score x) (rank docs))"
    by (simp add: strict_sorted_iff)
  then show ?thesis by (simp add: sorted_wrt_map)
qed

lemma group_chunks_out_of_range:
  "\<exists>h \<in> set hits. int (length md) \<le> snd h \<Longrightarrow> group_chunks md hits acc = Inl IndexError"
proof (induction hits arbitrary: acc)
  case Nil
  then show ?case by simp
next
  case (Cons h hits)
  obtain s idx where h: "h = (s, idx)" by (cases h)
  show ?case
  proof (cases "int (length md) \<le> idx")
    case True
    then have "\<not> idx < 0" by simp
    with True h show ?thesis by simp
  next
    case False
    with Cons.prems h have "\<exists>h \<in> set hits. int (length md) \<le> snd h" by auto
    from Cons.IH [OF this] h False show ?thesis by simp
  qed
qed

lemma search_aborts_iff:
  "(search self hits top_docs m = Inl IndexError) = (\<exists>h \<in> set hits. int (length (metadata self)) \<le> snd h)"
proof
  assume l: "search self hits top_docs m = Inl IndexError"
  show "\<exists>h \<in> set hits. int (length (metadata self)) \<le> snd h"
  proof (rule ccontr)
    assume "\<not> (\<exists>h \<in> set hits. int (length (metadata self)) \<le> snd h)"
    then have "\<forall>h \<in> set hits. snd h < int (length (metadata self))" by auto
    from search_in_range [OF this, of top_docs m] l show False by auto
  qed
next
  assume "\<exists>h \<in> set hits. int (length (metadata self)) \<le> snd h"
  from group_chunks_out_of_range [OF this, of "[]"] show "search self hits top_docs m = Inl IndexError"
    by (simp add: search_def select_documents_def aggregate_def)
qed

lemma chunk_loop_skip_missing:
  "get_text_by_index txs (faiss_index c) = [] \<Longrightarrow>
     for_loop (chunk_body txs m) (pre @ c # post) st = for_loop (chunk_body txs m) (pre @ post) st"
proof (induction pre arbitrary: st)
  case Nil
  then show ?case by (cases st) simp
next
  case (Cons x pre)
  then show ?case by (cases "chunk_body txs m x st") simp_all
qed

lemma chunks_from_hits:
  assumes "select_documents md hits top_docs = Inr tds" and "d \<in> set tds" and "c \<in> set (matching_chunks d)"
  shows "\<exists>h \<in> set hits. faiss_index c = snd h \<and> 0 \<le> snd h \<and> snd h < int (length md)"
proof -
  from assms(1) obtain docs where agg: "aggregate md hits = Inr docs"
    and tds: "tds = py_take top_docs (rank docs)" by (rule select_documents_InrD)
  from tds assms(2) set_py_take [of top_docs "rank docs"] have d: "d \<in> set docs"
    by (auto simp: rank_def)
  from agg obtain g where g: "group_chunks md hits [] = Inr g" "docs = map score_document g"
    by (rule aggregate_InrD)
  with d obtain k cs where kv: "(k, cs) \<in> set g" "d = score_document (k, cs)" by auto
  from group_chunks_entry(1) [OF g(1) kv(1)] have "cs = hit_chunks md hits k" .
  moreover from kv(2) assms(3) have "c \<in> set cs" by (simp add: score_document_def)
  ultimately obtain h where h: "h \<in> set hits" "faiss_index c = snd h" "0 \<le> snd h"
    by (auto simp: hit_chunks_def)
  have "snd h < int (length md)"
  proof (rule ccontr)
    assume "\<not> snd h < int (length md)"
    then have "int (length md) \<le> snd h" by simp
    with h(1) have "\<exists>h \<in> set hits. int (length md) \<le> snd h" by blast
    from group_chunks_out_of_range [OF this, of "[]"] g(1) show False by simp
  qed
  with h show ?thesis by blast
qed

section \<open>Loading\<close>

text \<open>
  C3 (as stated): if the three artifacts are not aligned (differ in length), loading fails
  and no partially operational instance is produced. The code does not do this: \<open>_load\<close>
  never compares the three sizes. Here an index of 3 vectors, a metadata table of one entry
  and an empty text table load into an instance, and that instance answers a query.
\<close>

theorem C3_misaligned_load_succeeds:
  "(3::nat) \<noteq> length [\<lparr>meta_doc_id = ''a'', meta_chunk_index = 0\<rparr>] \<and>
   length [\<lparr>meta_doc_id = ''a'', meta_chunk_index = 0\<rparr>] \<noteq> length ([] :: string list) \<and>
   load (Some 3) (Some [\<lparr>meta_doc_id = ''a'', meta_chunk_index = 0\<rparr>]) (Some []) =
     Inr \<lparr>ntotal = 3, metadata = [\<lparr>meta_doc_id = ''a'', meta_chunk_index = 0\<rparr>], texts = []\<rparr> \<and>
   search \<lparr>ntotal = 3, metadata = [\<lparr>meta_doc_id = ''a'', meta_chunk_index = 0\<rparr>], texts = []\<rparr>
       [(0.5, 0)] 5 12000 =
     Inr \<lparr>context_str = [], top_documents = [''a''],
          document_scores = [\<lparr>sum_doc_id = ''a'', sum_score = 0.5, num_matching_chunks = 1\<rparr>],
          context_chars = 0\<rparr>"
  by (simp add: load_def search_eval)

text \<open>
  C3 (amended): loading fails exactly when one of the three artifacts cannot be read;
  three readable artifacts always load, whatever their sizes, into an instance that holds
  them as read. No alignment check is made at load time.
\<close>

theorem C3_load_checks_presence_only:
  "load (Some n) (Some md) (Some tx) = Inr \<lparr>ntotal = n, metadata = md, texts = tx\<rparr> \<and>
   load None metadata_file texts_file = Inl FileError \<and>
   load index_file None texts_file = Inl FileError \<and>
   load index_file metadata_file None = Inl FileError"
  by (simp add: load_def split: option.splits)

section \<open>Empty results and missing texts\<close>

text \<open>
  C8: when every index returned by the nearest-neighbour search is negative, \<open>search\<close>
  returns a result (not an error) whose context is the empty string and whose
  \<open>top_documents\<close> is the empty list.
\<close>

theorem C8_no_valid_hits_empty_result:
  "\<forall>h \<in> set hits. snd h < 0 \<Longrightarrow>
   search self hits top_docs max_context_chars =
     Inr \<lparr>context_str = [], top_documents = [], document_scores = [], context_chars = 0\<rparr>"
  by (simp add: search_def select_documents_def aggregate_def group_chunks_all_negative
        rank_def py_take_def build_context_def)

theorem C8_no_valid_hits_empty_result_witness:
  "snd (0.5::real, -1::int) < 0 \<and> snd (0.25::real, -1::int) < 0 \<and>
   search \<lparr>ntotal = 1, metadata = [\<lparr>meta_doc_id = ''a'', meta_chunk_index = 0\<rparr>], texts = [''x'']\<rparr>
       [(0.5, -1), (0.25, -1)] 5 12000 =
     Inr \<lparr>context_str = [], top_documents = [], document_scores = [], context_chars = 0\<rparr>"
  using C8_no_valid_hits_empty_result [of "[(0.5::real, -1::int), (0.25, -1)]"
      "\<lparr>ntotal = 1, metadata = [\<lparr>meta_doc_id = ''a'', meta_chunk_index = 0\<rparr>], texts = [''x'']\<rparr>"
      5 12000]
  by simp

text \<open>
  C9 (as stated): every chunk whose index is outside the text table is skipped without an
  error and without aborting the query. This fails when the index is outside the metadata
  table as well: the grouping loop reads \<open>self.metadata[idx]\<close> first, and that raises.
  Here the index holds 4 vectors, the two tables 3 entries each, and the hit 3 aborts the
  query.
\<close>

theorem C9_missing_text_and_metadata_aborts:
  "int (length (texts (three_docs\<lparr>ntotal := 4\<rparr>))) \<le> 3 \<and>
   (3::int) < int (ntotal (three_docs\<lparr>ntotal := 4\<rparr>)) \<and>
   get_text_by_index (texts (three_docs\<lparr>ntotal := 4\<rparr>)) 3 = [] \<and>
   search (three_docs\<lparr>ntotal := 4\<rparr>) [(0.5, 3)] 5 12000 = Inl IndexError"
  by (simp add: search_eval three_docs_def)

text \<open>
  C9 (amended): for a chunk whose index is outside the text table, text resolution returns
  the empty string, the body of the chunk loop leaves the section and the running total
  unchanged and goes on, and the loop gives the same result as without that chunk. No
  error comes from a missing text: \<open>search\<close> returns a result exactly when every hit
  index is below the length of the metadata table, and raises \<open>IndexError\<close> exactly when
  some hit index is not, whatever the text table holds. The chunks of the selected
  documents are the hits whose index is inside the metadata table.
\<close>

theorem C9_missing_text_is_skipped:
  "(faiss_index c < 0 \<or> int (length (texts self)) \<le> faiss_index c \<longrightarrow>
      get_text_by_index (texts self) (faiss_index c) = [] \<and>
      chunk_body (texts self) max_context_chars c (doc_context, total_chars) =
        Next (doc_context, total_chars) \<and>
      for_loop (chunk_body (texts self) max_context_chars) (pre @ c # post) (doc_context, total_chars) =
        for_loop (chunk_body (texts self) max_context_chars) (pre @ post) (doc_context, total_chars)) \<and>
   ((\<exists>r. search self hits top_docs max_context_chars = Inr r) =
      (\<forall>h \<in> set hits. snd h < int (length (metadata self)))) \<and>
   ((search self hits top_docs max_context_chars = Inl IndexError) =
      (\<exists>h \<in> set hits. int (length (metadata self)) \<le> snd h)) \<and>
   (search self hits top_docs max_context_chars = Inr r \<longrightarrow>
      (\<exists>tds. select_documents (metadata self) hits top_docs = Inr tds \<and>
         context_str r = join NL (fst (build_context (texts self) max_context_chars tds)) \<and>
         (\<forall>d \<in> set tds. \<forall>c \<in> set (matching_chunks d).
            \<exists>h \<in> set hits. faiss_index c = snd h \<and> 0 \<le> snd h \<and>
               snd h < int (length (metadata self)))))"
proof (intro conjI impI)
  assume gap: "faiss_index c < 0 \<or> int (length (texts self)) \<le> faiss_index c"
  then show t: "get_text_by_index (texts self) (faiss_index c) = []"
    by (auto simp: get_text_by_index_def)
  then show "chunk_body (texts self) max_context_chars c (doc_context, total_chars) =
        Next (doc_context, total_chars)" by simp
  from t show "for_loop (chunk_body (texts self) max_context_chars) (pre @ c # post) (doc_context, total_chars) =
        for_loop (chunk_body (texts self) max_context_chars) (pre @ post) (doc_context, total_chars)"
    by (rule chunk_loop_skip_missing)
next
  show "(\<exists>r. search self hits top_docs max_context_chars = Inr r) =
      (\<forall>h \<in> set hits. snd h < int (length (metadata self)))"
  proof
    assume "\<exists>r. search self hits top_docs max_context_chars = Inr r"
    then have "search self hits top_docs max_context_chars \<noteq> Inl IndexError" by auto
    then show "\<forall>h \<in> set hits. snd h < int (length (metadata self))"
      unfolding search_aborts_iff by auto
  next
    assume "\<forall>h \<in> set hits. snd h < int (length (metadata self))"
    then show "\<exists>r. search self hits top_docs max_context_chars = Inr r"
      by (rule search_in_range)
  qed
next
  show "(search self hits top_docs max_context_chars = Inl IndexError) =
      (\<exists>h \<in> set hits. int (length (metadata self)) \<le> snd h)"
    by (rule search_aborts_iff)
next
  assume "search self hits top_docs max_context_chars = Inr r"
  then obtain tds where
    sel: "select_documents (metadata self) hits top_docs = Inr tds"
    and ctx: "context_str r = join NL (fst (build_context (texts self) max_context_chars tds))"
    by (rule search_InrD)
  with chunks_from_hits [OF sel]
  show "\<exists>tds. select_documents (metadata self) hits top_docs = Inr tds \<and>
         context_str r = join NL (fst (build_context (texts self) max_context_chars tds)) \<and>
         (\<forall>d \<in> set tds. \<forall>c \<in> set (matching_chunks d).
            \<exists>h \<in> set hits. faiss_index c = snd h \<and> 0 \<le> snd h \<and>
               snd h < int (length (metadata self)))"
    by blast
qed

theorem C9_missing_text_is_skipped_witness:
  "int (length (texts \<lparr>ntotal = 2,
       metadata = [\<lparr>meta_doc_id = ''a'', meta_chunk_index = 0\<rparr>, \<lparr>meta_doc_id = ''b'', meta_chunk_index = 0\<rparr>],
       texts = [''x'']\<rparr>)) \<le> faiss_index \<lparr>chunk_index = 0, faiss_index = 1, score = 0.5\<rparr> \<and>
   get_text_by_index [''x''] 1 = [] \<and>
   chunk_body [''x''] 12000 \<lparr>chunk_index = 0, faiss_index = 1, score = 0.5\<rparr> (header ''b'', 0) =
     Next (header ''b'', 0) \<and>
   for_loop (chunk_body [''x''] 12000)
      [\<lparr>chunk_index = 0, faiss_index = 1, score = 0.5\<rparr>, \<lparr>chunk_index = 0, faiss_index = 0, score = 0.25\<rparr>]
      (header ''b'', 0) =
     for_loop (chunk_body [''x''] 12000) [\<lparr>chunk_index = 0, faiss_index = 0, score = 0.25\<rparr>] (header ''b'', 0) \<and>
   list_all (\<lambda>h. snd h < (2::int)) [(0.5::real, 1::int), (0.25, 0)] \<and>
   search \<lparr>ntotal = 2,
       metadata = [\<lparr>meta_doc_id = ''a'', meta_chunk_index = 0\<rparr>, \<lparr>meta_doc_id = ''b'', meta_chunk_index = 0\<rparr>],
       texts = [''x'']\<rparr> [(0.5, 1), (0.25, 0)] 5 12000 =
     Inr \<lparr>context_str = header ''a'' @ NL @ ''x'' @ NL,
          top_documents = [''b'', ''a''],
          document_scores = [\<lparr>sum_doc_id = ''b'', sum_score = 0.5, num_matching_chunks = 1\<rparr>,
            \<lparr>sum_doc_id = ''a'', sum_score = 0.25, num_matching_chunks = 1\<rparr>],
          context_chars = 24\<rparr> \<and>
   list_ex (\<lambda>h. (2::int) \<le> snd h) [(0.5::real, 2::int)] \<and>
   search \<lparr>ntotal = 3,
       metadata = [\<lparr>meta_doc_id = ''a'', meta_chunk_index = 0\<rparr>, \<lparr>meta_doc_id = ''b'', meta_chunk_index = 0\<rparr>],
       texts = [''x'']\<rparr> [(0.5, 2)] 5 12000 = Inl IndexError"
proof -
  let ?c = "\<lparr>chunk_index = 0, faiss_index = 1, score = 0.5\<rparr>"
  let ?k = "\<lparr>chunk_index = 0, faiss_index = 0, score = 0.25\<rparr>"
  let ?md = "[\<lparr>meta_doc_id = ''a'', meta_chunk_index = 0\<rparr>, \<lparr>meta_doc_id = ''b'', meta_chunk_index = 0\<rparr>]"
  let ?self = "\<lparr>ntotal = 2, metadata = ?md, texts = [''x'']\<rparr>"
  let ?self3 = "\<lparr>ntotal = 3, metadata = ?md, texts = [''x'']\<rparr>"
  let ?r = "\<lparr>context_str = header ''a'' @ NL @ ''x'' @ NL,
          top_documents = [''b'', ''a''],
          document_scores = [\<lparr>sum_doc_id = ''b'', sum_score = 0.5, num_matching_chunks = 1\<rparr>,
            \<lparr>sum_doc_id = ''a'', sum_score = 0.25, num_matching_chunks = 1\<rparr>],
          context_chars = 24\<rparr>"
  have gap: "faiss_index ?c < 0 \<or> int (length (texts ?self)) \<le> faiss_index ?c" by simp
  have run: "search ?self [(0.5, 1), (0.25, 0)] 5 12000 = Inr ?r"
    by (simp add: search_eval)
  from C9_missing_text_is_skipped [of ?c ?self 12000 "header ''b''" 0 "[]" "[?k]"
      "[(0.5, 1), (0.25, 0)]" 5 ?r] gap
  have a: "get_text_by_index (texts ?self) (faiss_index ?c) = []"
    and b: "chunk_body (texts ?self) 12000 ?c (header ''b'', 0) = Next (header ''b'', 0)"
    and c: "for_loop (chunk_body (texts ?self) 12000) ([] @ ?c # [?k]) (header ''b'', 0) =
        for_loop (chunk_body (texts ?self) 12000) ([] @ [?k]) (header ''b'', 0)"
    by blast+
  have out: "\<exists>h \<in> set [(0.5::real, 2::int)]. int (length (metadata ?self3)) \<le> snd h" by simp
  from C9_missing_text_is_skipped [of ?c ?self3 12000 "header ''b''" 0 "[]" "[?k]"
      "[(0.5, 2)]" 5 ?r] out
  have d: "search ?self3 [(0.5, 2)] 5 12000 = Inl IndexError" by blast
  show ?thesis using a b c d run by simp
qed

section \<open>The character budget\<close>

text \<open>
  C1 (as stated): for every non-empty result, the length of the context is at most
  \<open>max_context_chars\<close> plus one section header length. This fails: the budget check
  counts the chunk texts and the section being built, not the headers and newlines of the
  sections already emitted. With three one-chunk documents and a budget of 25 the
  context has 74 characters, while each header has 21.
\<close>

theorem C1_slack_exceeds_one_header:
  "\<not> isl (search three_docs [(0.9, 0), (0.8, 1), (0.7, 2)] 5 25) \<and>
   length (context_str (projr (search three_docs [(0.9, 0), (0.8, 1), (0.7, 2)] 5 25))) = 74 \<and>
   length (header ''a'') = 21 \<and> length (header ''b'') = 21 \<and> length (header ''c'') = 21 \<and>
   \<not> int (length (context_str (projr (search three_docs [(0.9, 0), (0.8, 1), (0.7, 2)] 5 25))))
       \<le> 25 + int (length (header ''a''))"
  by (simp add: search_eval three_docs_def)

text \<open>
  C1 (amended): a non-empty context is the join of one or more emitted sections, each
  the header of a selected document followed by one to ten chunks, and its length is at
  most \<open>max_context_chars + 1\<close> plus, for each emitted section other than the last, the
  length of that section's header, two newlines for each of its chunks, and the newline
  that joins it to the next section. A context of a single section has at most
  \<open>max_context_chars + 1\<close> characters.
\<close>

theorem C1_context_length_bound:
  assumes "search self hits top_docs max_context_chars = Inr r" and "context_str r \<noteq> []"
  shows "\<exists>tds secs.
      select_documents (metadata self) hits top_docs = Inr tds \<and>
      top_documents r = map doc_id tds \<and>
      fst (build_context (texts self) max_context_chars tds)
        = map (render_section (texts self)) secs \<and>
      context_str r = join NL (map (render_section (texts self)) secs) \<and>
      secs \<noteq> [] \<and> subseq (map fst secs) tds \<and> secs_ok (texts self) secs \<and>
      int (length (context_str r))
        \<le> max_context_chars + 1
            + int (sum_list (map (\<lambda>sec. length (header (doc_id (fst sec)))
                                       + 2 * length (snd sec) + 1) (butlast secs))) \<and>
      (butlast secs = [] \<longrightarrow> int (length (context_str r)) \<le> max_context_chars + 1)"
proof -
  from assms(1) obtain tds where
    sel: "select_documents (metadata self) hits top_docs = Inr tds"
    and ctx: "context_str r = join NL (fst (build_context (texts self) max_context_chars tds))"
    and td: "top_documents r = map doc_id tds"
    by (rule search_InrD)
  obtain ps t where bc: "build_context (texts self) max_context_chars tds = (ps, t)"
    by (cases "build_context (texts self) max_context_chars tds")
  from build_context_trace [OF bc] obtain secs where
    ps: "ps = map (render_section (texts self)) secs" and sub: "subseq (map fst secs) tds"
    and ok: "secs_ok (texts self) secs"
    and bud: "secs = [] \<or>
         int (sum_list (map (\<lambda>sec. section_chars (texts self) (snd sec)) (butlast secs)))
           + int (length (render_section (texts self) (last secs))) \<le> max_context_chars + 1"
    by blast
  from ctx bc ps assms(2) have ne: "secs \<noteq> []" by auto
  with bud have bud': "int (sum_list (map (\<lambda>sec. section_chars (texts self) (snd sec)) (butlast secs)))
           + int (length (render_section (texts self) (last secs))) \<le> max_context_chars + 1"
    by simp
  have ctx': "context_str r = join NL (map (render_section (texts self)) secs)"
    using ctx bc ps by simp
  have bound: "int (length (context_str r))
        \<le> max_context_chars + 1
            + int (sum_list (map (\<lambda>sec. length (header (doc_id (fst sec)))
                                       + 2 * length (snd sec) + 1) (butlast secs)))"
    unfolding ctx' by (rule context_length_of_sections [OF ne bud'])
  have one: "butlast secs = [] \<longrightarrow> int (length (context_str r)) \<le> max_context_chars + 1"
  proof
    assume "butlast secs = []"
    with bound show "int (length (context_str r)) \<le> max_context_chars + 1" by simp
  qed
  show ?thesis using sel td bc ps ctx' ne sub ok bound one
    by (intro exI [of _ tds] exI [of _ secs]) simp
qed

theorem C1_context_length_bound_witness:
  "search three_docs [(0.9, 0), (0.8, 1), (0.7, 2)] 5 25 =
     Inr \<lparr>context_str = header ''a'' @ NL @ ''x'' @ NL @ NL @ header ''b'' @ NL @ ''y'' @ NL @ NL @
                header ''c'' @ NL @ ''z'' @ NL,
          top_documents = [''a'', ''b'', ''c''],
          document_scores = [\<lparr>sum_doc_id = ''a'', sum_score = 0.9, num_matching_chunks = 1\<rparr>,
            \<lparr>sum_doc_id = ''b'', sum_score = 0.8, num_matching_chunks = 1\<rparr>,
            \<lparr>sum_doc_id = ''c'', sum_score = 0.7, num_matching_chunks = 1\<rparr>],
          context_chars = 74\<rparr> \<and>
   (\<exists>tds secs.
      select_documents (metadata three_docs) [(0.9, 0), (0.8, 1), (0.7, 2)] 5 = Inr tds \<and>
      [''a'', ''b'', ''c''] = map doc_id tds \<and>
      header ''a'' @ NL @ ''x'' @ NL @ NL @ header ''b'' @ NL @ ''y'' @ NL @ NL @
                header ''c'' @ NL @ ''z'' @ NL = join NL (map (render_section (texts three_docs)) secs) \<and>
      secs \<noteq> [] \<and> subseq (map fst secs) tds \<and> secs_ok (texts three_docs) secs \<and>
      (74::int) \<le> 25 + 1 + int (sum_list (map (\<lambda>sec. length (header (doc_id (fst sec)))
                                       + 2 * length (snd sec) + 1) (butlast secs))))"
proof -
  let ?r = "\<lparr>context_str = header ''a'' @ NL @ ''x'' @ NL @ NL @ header ''b'' @ NL @ ''y'' @ NL @ NL @
                header ''c'' @ NL @ ''z'' @ NL,
          top_documents = [''a'', ''b'', ''c''],
          document_scores = [\<lparr>sum_doc_id = ''a'', sum_score = 0.9, num_matching_chunks = 1\<rparr>,
            \<lparr>sum_doc_id = ''b'', sum_score = 0.8, num_matching_chunks = 1\<rparr>,
            \<lparr>sum_doc_id = ''c'', sum_score = 0.7, num_matching_chunks = 1\<rparr>],
          context_chars = 74\<rparr>"
  have run: "search three_docs [(0.9, 0), (0.8, 1), (0.7, 2)] 5 25 = Inr ?r"
    by (simp add: search_eval three_docs_def)
  have ne: "context_str ?r \<noteq> []" by (simp add: header_def NL_def)
  have len: "length (context_str ?r) = 74" by (simp add: header_def NL_def)
  from C1_context_length_bound [OF run ne] obtain tds secs where
    "select_documents (metadata three_docs) [(0.9, 0), (0.8, 1), (0.7, 2)] 5 = Inr tds"
    "top_documents ?r = map doc_id tds"
    "context_str ?r = join NL (map (render_section (texts three_docs)) secs)"
    "secs \<noteq> []" "subseq (map fst secs) tds" "secs_ok (texts three_docs) secs"
    "int (length (context_str ?r)) \<le> 25 + 1
            + int (sum_list (map (\<lambda>sec. length (header (doc_id (fst sec)))
                                       + 2 * length (snd sec) + 1) (butlast secs)))"
    by blast
  then have "\<exists>tds secs.
      select_documents (metadata three_docs) [(0.9, 0), (0.8, 1), (0.7, 2)] 5 = Inr tds \<and>
      top_documents ?r = map doc_id tds \<and>
      context_str ?r = join NL (map (render_section (texts three_docs)) secs) \<and>
      secs \<noteq> [] \<and> subseq (map fst secs) tds \<and> secs_ok (texts three_docs) secs \<and>
      int (length (context_str ?r)) \<le> 25 + 1 + int (sum_list (map (\<lambda>sec. length (header (doc_id (fst sec)))
                                       + 2 * length (snd sec) + 1) (butlast secs)))"
    by blast
  then show ?thesis using run unfolding len by simp
qed

text \<open>
  C10: for a positive \<open>max_context_chars\<close>, the running total stays strictly below
  \<open>max_context_chars\<close> across the body of the chunk loop and across the body of the
  document loop, the document loop never takes its \<open>break\<close>, and so the loop over the
  selected documents runs its body on every one of them (it is the plain fold of the body).
\<close>

theorem C10_document_break_unreachable:
  "0 < max_context_chars \<Longrightarrow>
     (int total_chars < max_context_chars \<longrightarrow>
        int (snd (ctl_state (chunk_body txs max_context_chars c (doc_context, total_chars))))
          < max_context_chars) \<and>
     (int total_chars < max_context_chars \<longrightarrow>
        (\<exists>st. doc_body txs max_context_chars d (context_parts, total_chars) = Next st \<and>
              int (snd st) < max_context_chars)) \<and>
     build_context txs max_context_chars tds =
       foldl (\<lambda>st d. ctl_state (doc_body txs max_context_chars d st)) ([], 0) tds \<and>
     int (snd (build_context txs max_context_chars tds)) < max_context_chars"
proof -
  assume pos: "0 < max_context_chars"
  then have "int 0 < max_context_chars" by simp
  from doc_loop_no_break [OF this, of txs tds "[]"]
  have "build_context txs max_context_chars tds =
       foldl (\<lambda>st d. ctl_state (doc_body txs max_context_chars d st)) ([], 0) tds"
    and "int (snd (build_context txs max_context_chars tds)) < max_context_chars"
    unfolding build_context_def by blast+
  then show ?thesis
    using chunk_body_budget [of total_chars max_context_chars txs c doc_context]
      doc_body_no_break [of total_chars max_context_chars txs d context_parts]
    by blast
qed

theorem C10_document_break_unreachable_witness:
  "(0::int) < 23 \<and> int 0 < 23 \<and>
   int (snd (ctl_state (chunk_body [''x''] 23 \<lparr>chunk_index = 0, faiss_index = 0, score = 0.5\<rparr>
              (header ''a'', 0)))) < 23 \<and>
   (\<exists>st. doc_body [''x''] 23
            \<lparr>doc_id = ''a'', doc_score = 0.5,
             matching_chunks = [\<lparr>chunk_index = 0, faiss_index = 0, score = 0.5\<rparr>]\<rparr> ([], 0) = Next st \<and>
         int (snd st) < 23) \<and>
   build_context [''x''] 23
       [\<lparr>doc_id = ''a'', doc_score = 0.5,
         matching_chunks = [\<lparr>chunk_index = 0, faiss_index = 0, score = 0.5\<rparr>]\<rparr>] =
     ([header ''a'' @ NL @ ''x'' @ NL], 1) \<and>
   int (snd (build_context [''x''] 23
       [\<lparr>doc_id = ''a'', doc_score = 0.5,
         matching_chunks = [\<lparr>chunk_index = 0, faiss_index = 0, score = 0.5\<rparr>]\<rparr>])) < 23"
  using C10_document_break_unreachable [of 23 0 "[''x'']"
      "\<lparr>chunk_index = 0, faiss_index = 0, score = 0.5\<rparr>" "header ''a''"
      "\<lparr>doc_id = ''a'', doc_score = 0.5,
        matching_chunks = [\<lparr>chunk_index = 0, faiss_index = 0, score = 0.5\<rparr>]\<rparr>" "[]"
      "[\<lparr>doc_id = ''a'', doc_score = 0.5,
         matching_chunks = [\<lparr>chunk_index = 0, faiss_index = 0, score = 0.5\<rparr>]\<rparr>]"]
  by (simp add: build_context_def doc_section_def get_text_by_index_def header_def NL_def Let_def)

section \<open>Sections and provenance\<close>

text \<open>
  C4 (as stated): a document identifier is in \<open>top_documents\<close> if and only if its section
  contributed text to the context. This fails: \<open>top_documents\<close> lists every selected
  document. Here the budget of 10 admits no chunk, the context is empty, and
  \<open>top_documents\<close> still names document \<open>a\<close>.
\<close>

theorem C4_top_document_without_section:
  "top_documents (projr (search
      \<lparr>ntotal = 1, metadata = [\<lparr>meta_doc_id = ''a'', meta_chunk_index = 0\<rparr>], texts = [''x'']\<rparr>
      [(0.5, 0)] 5 10)) = [''a''] \<and>
   context_str (projr (search
      \<lparr>ntotal = 1, metadata = [\<lparr>meta_doc_id = ''a'', meta_chunk_index = 0\<rparr>], texts = [''x'']\<rparr>
      [(0.5, 0)] 5 10)) = []"
  by (simp add: search_eval)

text \<open>
  C4 (amended): \<open>top_documents\<close> is exactly the ranked list of the identifiers of the
  selected documents, whether or not a section of theirs is in the context; the context
  is the join of the emitted sections, and the emitted sections are sections, with
  content, of a subsequence of the selected documents, in their order. So every document
  whose section is in the context is in \<open>top_documents\<close>, and not conversely.
\<close>

theorem C4_top_documents_are_selected_documents:
  assumes "search self hits top_docs max_context_chars = Inr r"
  shows "\<exists>tds inc. select_documents (metadata self) hits top_docs = Inr tds \<and>
           top_documents r = map doc_id tds \<and>
           context_str r = join NL (fst (build_context (texts self) max_context_chars tds)) \<and>
           subseq inc tds \<and>
           list_all2 is_section (fst (build_context (texts self) max_context_chars tds)) inc"
proof -
  from assms obtain tds where
    sel: "select_documents (metadata self) hits top_docs = Inr tds"
    and ctx: "context_str r = join NL (fst (build_context (texts self) max_context_chars tds))"
    and td: "top_documents r = map doc_id tds"
    by (rule search_InrD)
  obtain ps t where bc: "build_context (texts self) max_context_chars tds = (ps, t)"
    by (cases "build_context (texts self) max_context_chars tds")
  from build_context_inv [OF bc] obtain inc where
    "subseq inc tds" "list_all2 is_section ps inc" by blast
  with sel ctx td bc show ?thesis by auto
qed

theorem C4_top_documents_are_selected_documents_witness:
  "search long_and_short [(0.9, 0), (0.8, 1)] 5 30 =
     Inr \<lparr>context_str = header ''b'' @ NL @ ''x'' @ NL,
          top_documents = [''a'', ''b''],
          document_scores = [\<lparr>sum_doc_id = ''a'', sum_score = 0.9, num_matching_chunks = 1\<rparr>,
            \<lparr>sum_doc_id = ''b'', sum_score = 0.8, num_matching_chunks = 1\<rparr>],
          context_chars = 24\<rparr> \<and>
   (\<exists>tds inc. select_documents (metadata long_and_short) [(0.9, 0), (0.8, 1)] 5 = Inr tds \<and>
      [''a'', ''b''] = map doc_id tds \<and>
      header ''b'' @ NL @ ''x'' @ NL = join NL (fst (build_context (texts long_and_short) 30 tds)) \<and>
      subseq inc tds \<and>
      list_all2 is_section (fst (build_context (texts long_and_short) 30 tds)) inc)"
proof -
  have run: "search long_and_short [(0.9, 0), (0.8, 1)] 5 30 =
     Inr \<lparr>context_str = header ''b'' @ NL @ ''x'' @ NL,
          top_documents = [''a'', ''b''],
          document_scores = [\<lparr>sum_doc_id = ''a'', sum_score = 0.9, num_matching_chunks = 1\<rparr>,
            \<lparr>sum_doc_id = ''b'', sum_score = 0.8, num_matching_chunks = 1\<rparr>],
          context_chars = 24\<rparr>"
    by (simp add: search_eval long_and_short_def)
  from C4_top_documents_are_selected_documents [OF run] show ?thesis
    using run by simp
qed

text \<open>
  C6: when no chunk text is appended for a selected document (the section built for it is
  its bare header), the body of the document loop leaves \<open>context_parts\<close> unchanged; this
  is so in particular when \<open>max_context_chars\<close> is smaller than the length of the text of
  the document's first chunk. Every emitted section is a header followed by content, and
  the context of every result is the join of such sections: no header-only section.
\<close>

theorem C6_no_header_only_section:
  "(fst (doc_section txs max_context_chars d total_chars) = header (doc_id d) \<longrightarrow>
      fst (ctl_state (doc_body txs max_context_chars d (context_parts, total_chars))) = context_parts) \<and>
   (matching_chunks d = c # cs \<and>
    max_context_chars < int (length (get_text_by_index txs (faiss_index c))) \<longrightarrow>
      fst (ctl_state (doc_body txs max_context_chars d (context_parts, total_chars))) = context_parts) \<and>
   (\<forall>p \<in> set (fst (build_context txs max_context_chars tds)). \<exists>d \<in> set tds. is_section p d) \<and>
   (search self hits top_docs max_context_chars = Inr r \<longrightarrow>
      (\<exists>tds secs.
         select_documents (metadata self) hits top_docs = Inr tds \<and>
         top_documents r = map doc_id tds \<and>
         context_str r = join NL (fst (build_context (texts self) max_context_chars tds)) \<and>
         (\<forall>p \<in> set (fst (build_context (texts self) max_context_chars tds)).
            \<exists>d \<in> set tds. is_section p d) \<and>
         fst (build_context (texts self) max_context_chars tds)
           = map (render_section (texts self)) secs \<and>
         subseq (map fst secs) tds \<and> secs_ok (texts self) secs))"
proof (intro conjI impI)
  assume "fst (doc_section txs max_context_chars d total_chars) = header (doc_id d)"
  then show "fst (ctl_state (doc_body txs max_context_chars d (context_parts, total_chars))) = context_parts"
    by (rule doc_body_unchanged)
next
  assume a: "matching_chunks d = c # cs \<and>
    max_context_chars < int (length (get_text_by_index txs (faiss_index c)))"
  then have "doc_section txs max_context_chars d total_chars = (header (doc_id d), total_chars)"
    using chunk_loop_first_too_long [of max_context_chars txs c "take 9 cs" "header (doc_id d)" total_chars]
    by (simp add: doc_section_def)
  then show "fst (ctl_state (doc_body txs max_context_chars d (context_parts, total_chars))) = context_parts"
    by (intro doc_body_unchanged) simp
next
  show parts: "\<forall>p \<in> set (fst (build_context txs max_context_chars tds)). \<exists>d \<in> set tds. is_section p d"
    for txs tds
  proof -
    obtain ps t where bc: "build_context txs max_context_chars tds = (ps, t)"
      by (cases "build_context txs max_context_chars tds")
    from build_context_inv [OF bc] obtain inc where
      inc: "subseq inc tds" "list_all2 is_section ps inc" by blast
    have "\<exists>d \<in> set tds. is_section p d" if "p \<in> set ps" for p
    proof -
      from that obtain i where i: "i < length ps" "p = ps ! i"
        by (auto simp: in_set_conv_nth)
      with inc(2) have "inc ! i \<in> set inc" "is_section p (inc ! i)"
        by (auto simp: list_all2_conv_all_nth)
      moreover from inc(1) have "set inc \<subseteq> set tds"
        by (auto dest: list_emb_set)
      ultimately show ?thesis by blast
    qed
    with bc show ?thesis by simp
  qed
  assume "search self hits top_docs max_context_chars = Inr r"
  then obtain tds where
    sel: "select_documents (metadata self) hits top_docs = Inr tds"
    and ctx: "context_str r = join NL (fst (build_context (texts self) max_context_chars tds))"
    and td: "top_documents r = map doc_id tds"
    by (rule search_InrD)
  obtain ps t where bc: "build_context (texts self) max_context_chars tds = (ps, t)"
    by (cases "build_context (texts self) max_context_chars tds")
  from build_context_trace [OF bc] obtain secs where
    "ps = map (render_section (texts self)) secs" "subseq (map fst secs) tds"
    "secs_ok (texts self) secs" by blast
  with sel ctx td bc parts [of "texts self" tds]
  show "\<exists>tds secs.
         select_documents (metadata self) hits top_docs = Inr tds \<and>
         top_documents r = map doc_id tds \<and>
         context_str r = join NL (fst (build_context (texts self) max_context_chars tds)) \<and>
         (\<forall>p \<in> set (fst (build_context (texts self) max_context_chars tds)).
            \<exists>d \<in> set tds. is_section p d) \<and>
         fst (build_context (texts self) max_context_chars tds)
           = map (render_section (texts self)) secs \<and>
         subseq (map fst secs) tds \<and> secs_ok (texts self) secs"
    by (intro exI [of _ tds] exI [of _ secs]) simp
qed

theorem C6_no_header_only_section_witness:
  "fst (doc_section (texts long_and_short) 30
      \<lparr>doc_id = ''a'', doc_score = 0.9,
       matching_chunks = [\<lparr>chunk_index = 0, faiss_index = 0, score = 0.9\<rparr>]\<rparr> 0) = header ''a'' \<and>
   (30::int) < int (length (get_text_by_index (texts long_and_short) 0)) \<and>
   fst (ctl_state (doc_body (texts long_and_short) 30
      \<lparr>doc_id = ''a'', doc_score = 0.9,
       matching_chunks = [\<lparr>chunk_index = 0, faiss_index = 0, score = 0.9\<rparr>]\<rparr> ([], 0))) = [] \<and>
   search long_and_short [(0.9, 0), (0.8, 1)] 5 30 =
     Inr \<lparr>context_str = header ''b'' @ NL @ ''x'' @ NL,
          top_documents = [''a'', ''b''],
          document_scores = [\<lparr>sum_doc_id = ''a'', sum_score = 0.9, num_matching_chunks = 1\<rparr>,
            \<lparr>sum_doc_id = ''b'', sum_score = 0.8, num_matching_chunks = 1\<rparr>],
          context_chars = 24\<rparr> \<and>
   (\<exists>tds secs.
      select_documents (metadata long_and_short) [(0.9, 0), (0.8, 1)] 5 = Inr tds \<and>
      [''a'', ''b''] = map doc_id tds \<and>
      header ''b'' @ NL @ ''x'' @ NL = join NL (fst (build_context (texts long_and_short) 30 tds)) \<and>
      list_all (\<lambda>p. list_ex (is_section p) tds) (fst (build_context (texts long_and_short) 30 tds)) \<and>
      fst (build_context (texts long_and_short) 30 tds) = map (render_section (texts long_and_short)) secs \<and>
      subseq (map fst secs) tds \<and> secs_ok (texts long_and_short) secs)"
proof -
  let ?c = "\<lparr>chunk_index = 0, faiss_index = 0, score = 0.9\<rparr>"
  let ?d = "\<lparr>doc_id = ''a'', doc_score = 0.9, matching_chunks = [?c]\<rparr>"
  let ?r = "\<lparr>context_str = header ''b'' @ NL @ ''x'' @ NL,
          top_documents = [''a'', ''b''],
          document_scores = [\<lparr>sum_doc_id = ''a'', sum_score = 0.9, num_matching_chunks = 1\<rparr>,
            \<lparr>sum_doc_id = ''b'', sum_score = 0.8, num_matching_chunks = 1\<rparr>],
          context_chars = 24\<rparr>"
  have sec: "fst (doc_section (texts long_and_short) 30 ?d 0) = header (doc_id ?d)"
    by (simp add: doc_section_def get_text_by_index_def long_and_short_def header_def NL_def)
  have long: "matching_chunks ?d = ?c # [] \<and>
      (30::int) < int (length (get_text_by_index (texts long_and_short) (faiss_index ?c)))"
    by (simp add: get_text_by_index_def long_and_short_def)
  have run: "search long_and_short [(0.9, 0), (0.8, 1)] 5 30 = Inr ?r"
    by (simp add: search_eval long_and_short_def)
  from C6_no_header_only_section [of "texts long_and_short" 30 ?d 0 "[]" ?c "[]" "[]"
      long_and_short "[(0.9, 0), (0.8, 1)]" 5 ?r] sec long run
  have "fst (ctl_state (doc_body (texts long_and_short) 30 ?d ([], 0))) = []"
    and "\<exists>tds secs.
         select_documents (metadata long_and_short) [(0.9, 0), (0.8, 1)] 5 = Inr tds \<and>
         top_documents ?r = map doc_id tds \<and>
         context_str ?r = join NL (fst (build_context (texts long_and_short) 30 tds)) \<and>
         (\<forall>p \<in> set (fst (build_context (texts long_and_short) 30 tds)).
            \<exists>d \<in> set tds. is_section p d) \<and>
         fst (build_context (texts long_and_short) 30 tds)
           = map (render_section (texts long_and_short)) secs \<and>
         subseq (map fst secs) tds \<and> secs_ok (texts long_and_short) secs"
    by blast+
  then show ?thesis using sec long run
    by (simp add: list_all_iff list_ex_iff)
qed

section \<open>The budget check of the chunk loop\<close>

text \<open>
  C5 (as stated): for every candidate chunk, the text is appended, with its newlines, if
  and only if \<open>total_chars + len(chunk_text) + len(doc_context) < max_context_chars\<close>.
  This fails for a chunk whose text is empty: the check holds, and nothing is appended
  (the section stays the bare header, and is then dropped).
\<close>

theorem C5_empty_text_not_appended:
  "int 0 + int (length (get_text_by_index [''''] 0)) + int (length (header ''a'')) < 12000 \<and>
   faiss_index \<lparr>chunk_index = 0, faiss_index = 0, score = 0.5\<rparr> = 0 \<and>
   chunk_body [''''] 12000 \<lparr>chunk_index = 0, faiss_index = 0, score = 0.5\<rparr> (header ''a'', 0) =
     Next (header ''a'', 0) \<and>
   chunk_body [''''] 12000 \<lparr>chunk_index = 0, faiss_index = 0, score = 0.5\<rparr> (header ''a'', 0) \<noteq>
     Next (header ''a'' @ NL @ get_text_by_index [''''] 0 @ NL,
           0 + length (get_text_by_index [''''] 0)) \<and>
   context_str (projr (search
      \<lparr>ntotal = 1, metadata = [\<lparr>meta_doc_id = ''a'', meta_chunk_index = 0\<rparr>], texts = ['''']\<rparr>
      [(0.5, 0)] 5 12000)) = []"
  by (simp add: search_eval)

text \<open>
  C5 (amended): for every candidate chunk whose text is not empty, the text is appended
  (between two newlines, its length added to the running total) if and only if
  \<open>total_chars + len(chunk_text) + len(doc_context) < max_context_chars\<close> holds before
  appending; when the check fails the loop stops, and no later chunk of the document is
  appended, whatever its length. A chunk whose text is empty is skipped without the check
  and without stopping the loop.
\<close>

theorem C5_budget_check_before_append:
  "(get_text_by_index txs (faiss_index c) \<noteq> [] \<longrightarrow>
      ((chunk_body txs max_context_chars c (doc_context, total_chars) =
          Next (doc_context @ NL @ get_text_by_index txs (faiss_index c) @ NL,
                total_chars + length (get_text_by_index txs (faiss_index c))))
        = (int total_chars + int (length (get_text_by_index txs (faiss_index c)))
             + int (length doc_context) < max_context_chars)) \<and>
      (\<not> int total_chars + int (length (get_text_by_index txs (faiss_index c)))
             + int (length doc_context) < max_context_chars \<longrightarrow>
         chunk_body txs max_context_chars c (doc_context, total_chars) = Break (doc_context, total_chars) \<and>
         for_loop (chunk_body txs max_context_chars) (c # cs) (doc_context, total_chars)
           = (doc_context, total_chars))) \<and>
   (get_text_by_index txs (faiss_index c) = [] \<longrightarrow>
      chunk_body txs max_context_chars c (doc_context, total_chars) = Next (doc_context, total_chars))"
  by (simp add: Let_def)

theorem C5_budget_check_before_append_witness:
  "get_text_by_index [''hello'', ''x'', ''''] 0 = ''hello'' \<and>
   int 0 + int (length ''hello'') + int (length (header ''a'')) < 40 \<and>
   chunk_body [''hello'', ''x'', ''''] 40 \<lparr>chunk_index = 0, faiss_index = 0, score = 0.5\<rparr> (header ''a'', 0) =
     Next (header ''a'' @ NL @ ''hello'' @ NL, 5) \<and>
   \<not> int 0 + int (length ''hello'') + int (length (header ''a'')) < 25 \<and>
   chunk_body [''hello'', ''x'', ''''] 25 \<lparr>chunk_index = 0, faiss_index = 0, score = 0.5\<rparr> (header ''a'', 0) =
     Break (header ''a'', 0) \<and>
   int 0 + int (length ''x'') + int (length (header ''a'')) < 25 \<and>
   for_loop (chunk_body [''hello'', ''x'', ''''] 25)
      [\<lparr>chunk_index = 0, faiss_index = 0, score = 0.5\<rparr>, \<lparr>chunk_index = 1, faiss_index = 1, score = 0.4\<rparr>]
      (header ''a'', 0) = (header ''a'', 0) \<and>
   get_text_by_index [''hello'', ''x'', ''''] 2 = [] \<and>
   chunk_body [''hello'', ''x'', ''''] 40 \<lparr>chunk_index = 2, faiss_index = 2, score = 0.5\<rparr> (header ''a'', 0) =
     Next (header ''a'', 0)"
proof -
  let ?txs = "[''hello'', ''x'', '''']"
  let ?c0 = "\<lparr>chunk_index = 0, faiss_index = 0, score = 0.5\<rparr>"
  let ?c1 = "\<lparr>chunk_index = 1, faiss_index = 1, score = 0.4\<rparr>"
  let ?c2 = "\<lparr>chunk_index = 2, faiss_index = 2, score = 0.5\<rparr>"
  have t0: "get_text_by_index ?txs (faiss_index ?c0) = ''hello''"
    and t2: "get_text_by_index ?txs (faiss_index ?c2) = []"
    by (simp_all add: get_text_by_index_def)
  have len: "length (header ''a'') = 21" by (simp add: length_header)
  from C5_budget_check_before_append [of ?txs ?c0 40 "header ''a''" 0 "[?c1]"] t0 len
  have a: "chunk_body ?txs 40 ?c0 (header ''a'', 0) = Next (header ''a'' @ NL @ ''hello'' @ NL, 5)"
    by simp
  from C5_budget_check_before_append [of ?txs ?c0 25 "header ''a''" 0 "[?c1]"] t0 len
  have b: "chunk_body ?txs 25 ?c0 (header ''a'', 0) = Break (header ''a'', 0)"
    and c: "for_loop (chunk_body ?txs 25) [?c0, ?c1] (header ''a'', 0) = (header ''a'', 0)"
    by simp_all
  from C5_budget_check_before_append [of ?txs ?c2 40 "header ''a''" 0 "[]"] t2
  have d: "chunk_body ?txs 40 ?c2 (header ''a'', 0) = Next (header ''a'', 0)"
    by simp
  show ?thesis using a b c d t0 t2 len by simp
qed

section \<open>Aggregation and ranking\<close>

text \<open>
  C2: when the grouping succeeds, every document with at least one surviving hit gets an
  entry; for every entry, with \<open>s_1..s_n\<close> the raw scores of the document's surviving hits
  (\<open>n \<ge> 1\<close>), the aggregate score is \<open>(s_1 + ... + s_n) / sqrt n\<close>, which for a single
  hit is that hit's score; \<open>search\<close> returns these scores and counts in
  \<open>document_scores\<close>. A document with hits 0.9 and 0.8 is ranked before a document with
  the single hit 0.95, also when the latter was found first.
\<close>

theorem C2_aggregate_score:
  assumes "aggregate (metadata self) hits = Inr docs"
  shows "(\<forall>k. hit_scores (metadata self) hits k \<noteq> [] \<longrightarrow> (\<exists>d \<in> set docs. doc_id d = k)) \<and>
     (\<forall>d \<in> set docs.
        hit_scores (metadata self) hits (doc_id d) \<noteq> [] \<and>
        doc_score d = sum_list (hit_scores (metadata self) hits (doc_id d))
                        / sqrt (real (length (hit_scores (metadata self) hits (doc_id d)))) \<and>
        (\<forall>s. hit_scores (metadata self) hits (doc_id d) = [s] \<longrightarrow> doc_score d = s)) \<and>
     (\<exists>r. search self hits top_docs max_context_chars = Inr r \<and>
        (\<forall>ds \<in> set (document_scores r).
           sum_score ds = sum_list (hit_scores (metadata self) hits (sum_doc_id ds))
                            / sqrt (real (length (hit_scores (metadata self) hits (sum_doc_id ds)))) \<and>
           num_matching_chunks ds = length (hit_scores (metadata self) hits (sum_doc_id ds)))) \<and>
     search two_and_one [(0.95, 2), (0.9, 0), (0.8, 1)] 5 12000 =
       Inr \<lparr>context_str = header ''A'' @ NL @ ''x'' @ NL @ NL @ ''y'' @ NL @ NL @ header ''B'' @ NL @ ''z'' @ NL,
            top_documents = [''A'', ''B''],
            document_scores =
              [\<lparr>sum_doc_id = ''A'', sum_score = (0.9 + 0.8) / sqrt 2, num_matching_chunks = 2\<rparr>,
               \<lparr>sum_doc_id = ''B'', sum_score = 0.95, num_matching_chunks = 1\<rparr>],
            context_chars = 52\<rparr>"
proof (intro conjI allI impI ballI)
  fix k assume "hit_scores (metadata self) hits k \<noteq> []"
  with assms show "\<exists>d \<in> set docs. doc_id d = k" by (rule aggregate_complete)
next
  fix d assume d: "d \<in> set docs"
  note e = aggregate_entry [OF assms d]
  show "hit_scores (metadata self) hits (doc_id d) \<noteq> []" by (rule e(1))
  show f: "doc_score d = sum_list (hit_scores (metadata self) hits (doc_id d))
                        / sqrt (real (length (hit_scores (metadata self) hits (doc_id d))))"
    by (rule e(3))
  fix s assume "hit_scores (metadata self) hits (doc_id d) = [s]"
  with f show "doc_score d = s" by simp
next
  from search_of_aggregate [OF assms, of top_docs max_context_chars] obtain r where
    r: "search self hits top_docs max_context_chars = Inr r"
       "set (document_scores r) \<subseteq> summary ` set docs" by blast
  have "sum_score ds = sum_list (hit_scores (metadata self) hits (sum_doc_id ds))
                            / sqrt (real (length (hit_scores (metadata self) hits (sum_doc_id ds)))) \<and>
           num_matching_chunks ds = length (hit_scores (metadata self) hits (sum_doc_id ds))"
    if "ds \<in> set (document_scores r)" for ds
  proof -
    from that r(2) obtain d where d: "d \<in> set docs" "ds = summary d" by auto
    from aggregate_entry [OF assms d(1)] d(2) show ?thesis by (simp add: summary_def)
  qed
  with r(1) show "\<exists>r. search self hits top_docs max_context_chars = Inr r \<and>
        (\<forall>ds \<in> set (document_scores r).
           sum_score ds = sum_list (hit_scores (metadata self) hits (sum_doc_id ds))
                            / sqrt (real (length (hit_scores (metadata self) hits (sum_doc_id ds)))) \<and>
           num_matching_chunks ds = length (hit_scores (metadata self) hits (sum_doc_id ds)))"
    by blast
next
  show "search two_and_one [(0.95, 2), (0.9, 0), (0.8, 1)] 5 12000 =
       Inr \<lparr>context_str = header ''A'' @ NL @ ''x'' @ NL @ NL @ ''y'' @ NL @ NL @ header ''B'' @ NL @ ''z'' @ NL,
            top_documents = [''A'', ''B''],
            document_scores =
              [\<lparr>sum_doc_id = ''A'', sum_score = (0.9 + 0.8) / sqrt 2, num_matching_chunks = 2\<rparr>,
               \<lparr>sum_doc_id = ''B'', sum_score = 0.95, num_matching_chunks = 1\<rparr>],
            context_chars = 52\<rparr>"
    by (rule two_chunks_outrank)
qed

theorem C2_aggregate_score_witness:
  "aggregate (metadata two_and_one) [(0.95, 2), (0.9, 0), (0.8, 1)] =
     Inr [\<lparr>doc_id = ''B'', doc_score = 0.95,
           matching_chunks = [\<lparr>chunk_index = 0, faiss_index = 2, score = 0.95\<rparr>]\<rparr>,
          \<lparr>doc_id = ''A'', doc_score = (0.9 + 0.8) / sqrt 2,
           matching_chunks = [\<lparr>chunk_index = 0, faiss_index = 0, score = 0.9\<rparr>,
                              \<lparr>chunk_index = 1, faiss_index = 1, score = 0.8\<rparr>]\<rparr>] \<and>
   hit_scores (metadata two_and_one) [(0.95, 2), (0.9, 0), (0.8, 1)] ''A'' = [0.9, 0.8] \<and>
   hit_scores (metadata two_and_one) [(0.95, 2), (0.9, 0), (0.8, 1)] ''B'' = [0.95] \<and>
   (\<exists>r. search two_and_one [(0.95, 2), (0.9, 0), (0.8, 1)] 5 12000 = Inr r \<and>
      list_all (\<lambda>ds. sum_score ds =
          sum_list (hit_scores (metadata two_and_one) [(0.95, 2), (0.9, 0), (0.8, 1)] (sum_doc_id ds))
            / sqrt (real (length (hit_scores (metadata two_and_one) [(0.95, 2), (0.9, 0), (0.8, 1)]
                 (sum_doc_id ds)))))
        (document_scores r))"
proof -
  let ?hits = "[(0.95, 2), (0.9, 0), (0.8, 1)] :: (real \<times> int) list"
  let ?docs = "[\<lparr>doc_id = ''B'', doc_score = 0.95,
           matching_chunks = [\<lparr>chunk_index = 0, faiss_index = 2, score = 0.95\<rparr>]\<rparr>,
          \<lparr>doc_id = ''A'', doc_score = (0.9 + 0.8) / sqrt 2,
           matching_chunks = [\<lparr>chunk_index = 0, faiss_index = 0, score = 0.9\<rparr>,
                              \<lparr>chunk_index = 1, faiss_index = 1, score = 0.8\<rparr>]\<rparr>]"
  have agg: "aggregate (metadata two_and_one) ?hits = Inr ?docs"
    by (simp add: aggregate_def score_document_def two_and_one_def)
  have a: "hit_scores (metadata two_and_one) ?hits ''A'' = [0.9, 0.8]"
    and b: "hit_scores (metadata two_and_one) ?hits ''B'' = [0.95]"
    by (simp_all add: hit_scores_def two_and_one_def)
  from C2_aggregate_score [OF agg, of 5 12000]
  have "\<exists>r. search two_and_one ?hits 5 12000 = Inr r \<and>
        (\<forall>ds \<in> set (document_scores r).
           sum_score ds = sum_list (hit_scores (metadata two_and_one) ?hits (sum_doc_id ds))
                            / sqrt (real (length (hit_scores (metadata two_and_one) ?hits (sum_doc_id ds)))) \<and>
           num_matching_chunks ds = length (hit_scores (metadata two_and_one) ?hits (sum_doc_id ds)))"
    by blast
  then show ?thesis using agg a b by (auto simp: list_all_iff)
qed

text \<open>
  C7: for a non-negative \<open>top_docs\<close>, the selected documents are the first \<open>top_docs\<close>
  documents of the ranking. The ranking is a permutation of the aggregated documents in
  descending order of score, strictly descending when the scores are distinct; documents
  of equal score keep the insertion order of the aggregation step. With three documents
  of distinct scores and \<open>top_docs = 2\<close>, \<open>top_documents\<close> names exactly the two
  documents of highest score, higher score first.
\<close>

theorem C7_ranking:
  assumes "0 \<le> top_docs" and "search self hits top_docs max_context_chars = Inr r"
  shows "\<exists>docs. aggregate (metadata self) hits = Inr docs \<and>
     top_documents r = map doc_id (take (nat top_docs) (rank docs)) \<and>
     document_scores r = map summary (take (nat top_docs) (rank docs)) \<and>
     mset (rank docs) = mset docs \<and>
     sorted_wrt (\<lambda>a b. doc_score b \<le> doc_score a) (rank docs) \<and>
     (\<forall>s. filter (\<lambda>d. doc_score d = s) (rank docs) = filter (\<lambda>d. doc_score d = s) docs) \<and>
     (distinct (map doc_score docs) \<longrightarrow>
        sorted_wrt (\<lambda>a b. doc_score b < doc_score a) (rank docs)) \<and>
     (length docs = 3 \<and> distinct (map doc_score docs) \<and> top_docs = 2 \<longrightarrow>
        (\<exists>a b c. mset docs = {#a, b, c#} \<and> top_documents r = [doc_id a, doc_id b] \<and>
           doc_score b < doc_score a \<and> doc_score c < doc_score b))"
proof -
  from assms(2) obtain tds where
    sel: "select_documents (metadata self) hits top_docs = Inr tds"
    and td: "top_documents r = map doc_id tds"
    and dsc: "document_scores r = map summary tds"
    by (rule search_InrD)
  from sel obtain docs where agg: "aggregate (metadata self) hits = Inr docs"
    and tds: "tds = py_take top_docs (rank docs)"
    by (rule select_documents_InrD)
  from tds assms(1) have tds': "tds = take (nat top_docs) (rank docs)"
    by (simp add: py_take_def)
  have three: "\<exists>a b c. mset docs = {#a, b, c#} \<and> top_documents r = [doc_id a, doc_id b] \<and>
           doc_score b < doc_score a \<and> doc_score c < doc_score b"
    if h: "length docs = 3 \<and> distinct (map doc_score docs) \<and> top_docs = 2"
  proof -
    have "length (rank docs) = 3" using h by (simp add: rank_def)
    then obtain a b c where abc: "rank docs = [a, b, c]"
      by (auto simp: length_Suc_conv numeral_3_eq_3)
    from rank_strict [of docs] h abc
    have "doc_score b < doc_score a" "doc_score c < doc_score b" by simp_all
    moreover have "mset docs = {#a, b, c#}" using rank_mset [of docs] abc by simp
    moreover have "top_documents r = [doc_id a, doc_id b]"
      using td tds' abc h by (simp add: numeral_2_eq_2)
    ultimately show ?thesis by blast
  qed
  show ?thesis
    using agg td dsc tds' rank_mset [of docs] rank_sorted [of docs] rank_stable [of _ docs]
      rank_strict [of docs] three
    by (intro exI [of _ docs]) simp
qed

theorem C7_ranking_witness:
  "(0::int) \<le> 2 \<and>
   search three_docs [(0.7, 2), (0.9, 0), (0.8, 1)] 2 12000 =
     Inr \<lparr>context_str = header ''a'' @ NL @ ''x'' @ NL @ NL @ header ''b'' @ NL @ ''y'' @ NL,
          top_documents = [''a'', ''b''],
          document_scores = [\<lparr>sum_doc_id = ''a'', sum_score = 0.9, num_matching_chunks = 1\<rparr>,
            \<lparr>sum_doc_id = ''b'', sum_score = 0.8, num_matching_chunks = 1\<rparr>],
          context_chars = 49\<rparr> \<and>
   aggregate (metadata three_docs) [(0.7, 2), (0.9, 0), (0.8, 1)] =
     Inr [\<lparr>doc_id = ''c'', doc_score = 0.7,
           matching_chunks = [\<lparr>chunk_index = 0, faiss_index = 2, score = 0.7\<rparr>]\<rparr>,
          \<lparr>doc_id = ''a'', doc_score = 0.9,
           matching_chunks = [\<lparr>chunk_index = 0, faiss_index = 0, score = 0.9\<rparr>]\<rparr>,
          \<lparr>doc_id = ''b'', doc_score = 0.8,
           matching_chunks = [\<lparr>chunk_index = 0, faiss_index = 1, score = 0.8\<rparr>]\<rparr>] \<and>
   distinct [0.7, 0.9, 0.8 :: real] \<and>
   (\<exists>a b c. {#\<lparr>doc_id = ''c'', doc_score = 0.7,
           matching_chunks = [\<lparr>chunk_index = 0, faiss_index = 2, score = 0.7\<rparr>]\<rparr>,
          \<lparr>doc_id = ''a'', doc_score = 0.9,
           matching_chunks = [\<lparr>chunk_index = 0, faiss_index = 0, score = 0.9\<rparr>]\<rparr>,
          \<lparr>doc_id = ''b'', doc_score = 0.8,
           matching_chunks = [\<lparr>chunk_index = 0, faiss_index = 1, score = 0.8\<rparr>]\<rparr>#} = {#a, b, c#} \<and>
      [''a'', ''b''] = [doc_id a, doc_id b] \<and> doc_score b < doc_score a \<and> doc_score c < doc_score b)"
proof -
  let ?hits = "[(0.7, 2), (0.9, 0), (0.8, 1)] :: (real \<times> int) list"
  let ?r = "\<lparr>context_str = header ''a'' @ NL @ ''x'' @ NL @ NL @ header ''b'' @ NL @ ''y'' @ NL,
          top_documents = [''a'', ''b''],
          document_scores = [\<lparr>sum_doc_id = ''a'', sum_score = 0.9, num_matching_chunks = 1\<rparr>,
            \<lparr>sum_doc_id = ''b'', sum_score = 0.8, num_matching_chunks = 1\<rparr>],
          context_chars = 49\<rparr>"
  let ?docs = "[\<lparr>doc_id = ''c'', doc_score = 0.7,
           matching_chunks = [\<lparr>chunk_index = 0, faiss_index = 2, score = 0.7\<rparr>]\<rparr>,
          \<lparr>doc_id = ''a'', doc_score = 0.9,
           matching_chunks = [\<lparr>chunk_index = 0, faiss_index = 0, score = 0.9\<rparr>]\<rparr>,
          \<lparr>doc_id = ''b'', doc_score = 0.8,
           matching_chunks = [\<lparr>chunk_index = 0, faiss_index = 1, score = 0.8\<rparr>]\<rparr>]"
  have pos: "(0::int) \<le> 2" by simp
  have run: "search three_docs ?hits 2 12000 = Inr ?r"
    by (simp add: search_eval three_docs_def)
  have agg: "aggregate (metadata three_docs) ?hits = Inr ?docs"
    by (simp add: aggregate_def score_document_def three_docs_def)
  from C7_ranking [OF pos run] obtain docs where
    d: "aggregate (metadata three_docs) ?hits = Inr docs"
    and three: "length docs = 3 \<and> distinct (map doc_score docs) \<and> (2::int) = 2 \<longrightarrow>
        (\<exists>a b c. mset docs = {#a, b, c#} \<and> top_documents ?r = [doc_id a, doc_id b] \<and>
           doc_score b < doc_score a \<and> doc_score c < doc_score b)"
    by blast
  from d agg have docs: "docs = ?docs" by simp
  have "length ?docs = 3 \<and> distinct (map doc_score ?docs) \<and> (2::int) = 2" by simp
  with three [unfolded docs]
  have "\<exists>a b c. mset ?docs = {#a, b, c#} \<and> top_documents ?r = [doc_id a, doc_id b] \<and>
           doc_score b < doc_score a \<and> doc_score c < doc_score b"
    by blast
  then show ?thesis using run agg by simp
qed

end
